theory Spec2Isabelle
  imports
    Main
    "HOL-Library.Word"
    "HOL-Library.Signed_Division"
    "HOL-Library.Log_Nat"
begin

unbundle bit_operations_syntax

section \<open>Consistent hashing with bounded loads: the ring of \<^verbatim>\<open>core/algorithm.go\<close>\<close>

text \<open>
  The Go package \<^verbatim>\<open>core\<close> keeps one \<^verbatim>\<open>Consistent\<close> value behind a
  read/write mutex. The model is sequential: every method is a function from the state
  before the call to an outcome and the state after it. A runtime panic is an outcome of
  its own, and the state it leaves behind is returned with it.
\<close>

subsection \<open>Machine types\<close>

text \<open>
  \<^verbatim>\<open>uint64\<close> and \<^verbatim>\<open>int64\<close> are 64-bit words; an \<^verbatim>\<open>int64\<close> is read with
  \<^const>\<open>sint\<close>, and \<open>+\<close> wraps as \<^verbatim>\<open>atomic.AddInt64\<close> does. Go's \<^verbatim>\<open>int\<close>
  (replica counts, indices, lengths) never leaves the range where it is exact here, and is
  \<^typ>\<open>int\<close> or \<^typ>\<open>nat\<close>.
\<close>

type_synonym uint64 = "64 word"
type_synonym int64 = "64 word"
type_synonym byte = "8 word"

text \<open>Go's \<^verbatim>\<open>/\<close> on \<^verbatim>\<open>int64\<close> truncates towards zero; the caller checks the divisor.\<close>

definition int64_div :: "int64 \<Rightarrow> int64 \<Rightarrow> int64" where
  "int64_div a b = word_of_int (sint a sdiv sint b)"

subsection \<open>\<^verbatim>\<open>float64\<close>\<close>

text \<open>
  A finite \<^verbatim>\<open>float64\<close> is the rational number it denotes. Every arithmetic operation
  rounds the exact result to the nearest value with a 53-bit significand, ties to even.
  The exponent range is not modelled: the magnitudes that occur in this package lie
  between \<open>1/4\<close> and \<open>2^65\<close>, far from overflow and from the subnormal numbers.
\<close>

type_synonym float64 = rat

definition f64_exponent :: "rat \<Rightarrow> int" where
  "f64_exponent x =
     (if 1 \<le> \<bar>x\<bar> then bitlen \<lfloor>\<bar>x\<bar>\<rfloor> - 1 else - bitlen (\<lceil>1 / \<bar>x\<bar>\<rceil> - 1))"

definition round_even :: "rat \<Rightarrow> int" where
  "round_even y =
     (let f = \<lfloor>y\<rfloor>; d = y - of_int f
      in if d < 1 / 2 then f else if 1 / 2 < d then f + 1 else if even f then f else f + 1)"

definition f64_round :: "rat \<Rightarrow> float64" where
  "f64_round x =
     (if x = 0 then 0
      else let u = 2 powi (f64_exponent x - 52) in of_int (round_even (x / u)) * u)"

definition float64_of_int64 :: "int64 \<Rightarrow> float64" where
  "float64_of_int64 w = f64_round (of_int (sint w))"

definition f64_add :: "float64 \<Rightarrow> float64 \<Rightarrow> float64" where
  "f64_add a b = f64_round (a + b)"

definition f64_mul :: "float64 \<Rightarrow> float64 \<Rightarrow> float64" where
  "f64_mul a b = f64_round (a * b)"

text \<open>\<^verbatim>\<open>math.Ceil\<close> is exact: the ceiling of a \<^verbatim>\<open>float64\<close> is a \<^verbatim>\<open>float64\<close>.\<close>

definition math_Ceil :: "float64 \<Rightarrow> float64" where
  "math_Ceil x = of_int \<lceil>x\<rceil>"

text \<open>
  The conversion \<^verbatim>\<open>int64(f)\<close> truncates towards zero. Go leaves the result to the
  implementation when the value does not fit; the model wraps it.
\<close>

definition int64_of_float64 :: "float64 \<Rightarrow> int64" where
  "int64_of_float64 x = word_of_int (if 0 \<le> x then \<lfloor>x\<rfloor> else \<lceil>x\<rceil>)"

subsection \<open>Package-level declarations\<close>

datatype error = ErrHostAlreadyExists | ErrHostNotFound

datatype panic = IndexOutOfRange | NilDereference | IntegerDivideByZero

datatype 'a outcome = Return 'a | Panic panic

text \<open>
  \<^verbatim>\<open>defaultReplicaNum = 10\<close> and \<^verbatim>\<open>LoadBoundFactor = 0.25\<close>. The factor is a package
  variable that nothing in the package assigns; the model fixes it at its initial value.
  \<^verbatim>\<open>checkLoadCapacity\<close> and \<^verbatim>\<open>MaxLoad\<close> spell it \<^verbatim>\<open>loadBoundFactor\<close>.
\<close>

definition defaultReplicaNum :: int where
  "defaultReplicaNum = 10"

definition LoadBoundFactor :: float64 where
  "LoadBoundFactor = 1 / 4"

text \<open>
  \<^verbatim>\<open>binary.LittleEndian.Uint64(b)\<close>: byte \<open>i\<close> of the slice is shifted left by \<open>8 * i\<close>
  bits and the eight of them are or-ed.
\<close>

definition LittleEndian_Uint64 :: "byte list \<Rightarrow> uint64" where
  "LittleEndian_Uint64 b =
     ucast (b ! 0) OR push_bit 8 (ucast (b ! 1)) OR push_bit 16 (ucast (b ! 2))
       OR push_bit 24 (ucast (b ! 3)) OR push_bit 32 (ucast (b ! 4))
       OR push_bit 40 (ucast (b ! 5)) OR push_bit 48 (ucast (b ! 6))
       OR push_bit 56 (ucast (b ! 7))"

text \<open>
  \<^verbatim>\<open>defaultHashFunc\<close> hashes the key with \<^verbatim>\<open>sha512.Sum512\<close> of the Go standard
  library and reads the head of the digest. The digest function is a parameter of the
  model, \<open>Sum512\<close>; its result is the 64-byte array.
\<close>

definition defaultHashFunc :: "(string \<Rightarrow> byte list) \<Rightarrow> string \<Rightarrow> uint64" where
  "defaultHashFunc Sum512 key = (let out = Sum512 key in LittleEndian_Uint64 out)"

text \<open>
  Modelled from the spec: the declaration of the struct \<^verbatim>\<open>Host\<close> is not among the
  sources. The code builds it as \<^verbatim>\<open>Host{Name: hostName, LoadBound: 0}\<close> and passes
  \<^verbatim>\<open>&h.LoadBound\<close> to \<^verbatim>\<open>atomic.AddInt64\<close>; the spec gives a host a name and a signed
  counter \<open>loadBound\<close> of the requests in flight.
\<close>

record Host =
  Name :: string
  LoadBound :: int64

text \<open>
  The struct \<^verbatim>\<open>Consistent\<close>. Its declaration gives \<^verbatim>\<open>hosts\<close> keys of type
  \<^verbatim>\<open>uint64\<close>, but the constructor makes it, and every method indexes it, with host names:
  it is a map from strings. The map holds the only pointer to each \<^verbatim>\<open>Host\<close>, so the
  model stores the hosts themselves. A Go map lookup of an absent key gives the zero value.
\<close>

record Consistent =
  replicaNum :: int
  totalLoad :: int64
  hashFunc :: "string \<Rightarrow> uint64"
  hosts :: "string \<rightharpoonup> Host"
  virt2host :: "uint64 \<rightharpoonup> string"
  ring :: "uint64 list"

definition lookup_string :: "('k \<rightharpoonup> string) \<Rightarrow> 'k \<Rightarrow> string" where
  "lookup_string m k = (case m k of None \<Rightarrow> [] | Some v \<Rightarrow> v)"

text \<open>\<^verbatim>\<open>len(m)\<close> of a map is the number of its keys.\<close>

definition len_map :: "('k \<rightharpoonup> 'v) \<Rightarrow> nat" where
  "len_map m = card (dom m)"

subsection \<open>The constructor\<close>

text \<open>
  \<^verbatim>\<open>New(replicaNum, hashFunc)\<close>; a \<^verbatim>\<open>nil\<close> function is \<open>None\<close>. The composite
  literal names the three containers \<^verbatim>\<open>hostMap\<close>, \<^verbatim>\<open>replicaHostMap\<close> and
  \<^verbatim>\<open>sortedHostsHashSet\<close>; they are the fields \<^verbatim>\<open>hosts\<close>, \<^verbatim>\<open>virt2host\<close> and
  \<^verbatim>\<open>ring\<close> that every method uses, and they start empty.
\<close>

definition New :: "(string \<Rightarrow> byte list) \<Rightarrow> int \<Rightarrow> (string \<Rightarrow> uint64) option \<Rightarrow> Consistent" where
  "New Sum512 replicaNum0 hashFunc0 =
     (let replicaNum1 = (if replicaNum0 \<le> 0 then defaultReplicaNum else replicaNum0);
          hashFunc1 = (case hashFunc0 of None \<Rightarrow> defaultHashFunc Sum512 | Some f \<Rightarrow> f)
      in \<lparr>replicaNum = replicaNum1, totalLoad = 0, hashFunc = hashFunc1,
          hosts = Map.empty, virt2host = Map.empty, ring = []\<rparr>)"

subsection \<open>Virtual-node names\<close>

text \<open>
  \<^verbatim>\<open>fmt.Sprintf("%s%d", hostName, i)\<close>: the host name followed by the decimal digits of
  the replica index. The index runs from 0, so no sign is printed. The package declares
  the one format constant \<^verbatim>\<open>hostReplicaFormat\<close>; \<^verbatim>\<open>UnregisterHost\<close> formats with it,
  and \<^verbatim>\<open>RegisterHost\<close>, which spells it \<^verbatim>\<open>hostReplicaNum\<close>, is taken to do the same.
\<close>

fun decimal :: "nat \<Rightarrow> string" where
  "decimal n =
     (if n < 10 then [''0123456789'' ! n]
      else decimal (n div 10) @ [''0123456789'' ! (n mod 10)])"

declare decimal.simps [simp del]

definition Sprintf_hostReplicaFormat :: "string \<Rightarrow> nat \<Rightarrow> string" where
  "Sprintf_hostReplicaFormat hostName i = hostName @ decimal i"

subsection \<open>RegisterHost\<close>

text \<open>
  The loop \<^verbatim>\<open>for i := 0; i < c.replicaNum; i++\<close> stores each virtual node in the map and
  appends it to the ring; \<^verbatim>\<open>sort.Slice\<close> with \<open><\<close> then leaves the ring as the ascending
  arrangement of its entries.
\<close>

function RegisterHost_loop :: "Consistent \<Rightarrow> string \<Rightarrow> nat \<Rightarrow> Consistent" where
  "RegisterHost_loop c hostName i =
     (if int i < replicaNum c then
        let hashedIdx = hashFunc c (Sprintf_hostReplicaFormat hostName i)
        in RegisterHost_loop
             (c\<lparr>virt2host := (virt2host c)(hashedIdx \<mapsto> hostName),
                ring := ring c @ [hashedIdx]\<rparr>) hostName (i + 1)
      else c)"
  by pat_completeness auto
termination
  by (relation "measure (\<lambda>(c, hostName, i). nat (replicaNum c) - i)") auto

declare RegisterHost_loop.simps [simp del]

definition RegisterHost :: "Consistent \<Rightarrow> string \<Rightarrow> error option \<times> Consistent" where
  "RegisterHost c hostName =
     (if hosts c hostName \<noteq> None then (Some ErrHostAlreadyExists, c)
      else
        let c1 = c\<lparr>hosts := (hosts c)(hostName \<mapsto> \<lparr>Name = hostName, LoadBound = 0\<rparr>)\<rparr>;
            c2 = RegisterHost_loop c1 hostName 0
        in (None, c2\<lparr>ring := sort (ring c2)\<rparr>))"

subsection \<open>UnregisterHost\<close>

text \<open>
  \<^verbatim>\<open>delHashIndex\<close> looks for \<open>val\<close> by bisection between \<open>l\<close> and \<open>r\<close>, both
  \<^verbatim>\<open>int\<close> (\<open>r\<close> starts at \<open>-1\<close> on an empty ring), and cuts the entry it found out of the ring.
  It touches no other field.
\<close>

function delHashIndex_loop :: "uint64 list \<Rightarrow> uint64 \<Rightarrow> int \<Rightarrow> int \<Rightarrow> int" where
  "delHashIndex_loop rg val l r =
     (if l \<le> r then
        let m = (l + r) div 2
        in if rg ! nat m = val then m
           else if rg ! nat m < val then delHashIndex_loop rg val (m + 1) r
           else delHashIndex_loop rg val l (m - 1)
      else -1)"
  by pat_completeness auto
termination
  by (relation "measure (\<lambda>(rg, val, l, r). nat (r - l + 1))") auto

declare delHashIndex_loop.simps [simp del]

definition delHashIndex :: "Consistent \<Rightarrow> uint64 \<Rightarrow> Consistent" where
  "delHashIndex c val =
     (let idx = delHashIndex_loop (ring c) val 0 (int (length (ring c)) - 1)
      in if idx \<noteq> -1 then c\<lparr>ring := take (nat idx) (ring c) @ drop (nat idx + 1) (ring c)\<rparr>
         else c)"

function UnregisterHost_loop :: "Consistent \<Rightarrow> string \<Rightarrow> nat \<Rightarrow> Consistent" where
  "UnregisterHost_loop c hostName i =
     (if int i < replicaNum c then
        let hashedIdx = hashFunc c (Sprintf_hostReplicaFormat hostName i)
        in UnregisterHost_loop (delHashIndex c hashedIdx) hostName (i + 1)
      else c)"
  by pat_completeness auto
termination
  by (relation "measure (\<lambda>(c, hostName, i). nat (replicaNum c) - i)")
    (auto simp: delHashIndex_def Let_def)

declare UnregisterHost_loop.simps [simp del]

definition UnregisterHost :: "Consistent \<Rightarrow> string \<Rightarrow> error option \<times> Consistent" where
  "UnregisterHost c hostName =
     (if hosts c hostName = None then (Some ErrHostNotFound, c)
      else
        let c1 = c\<lparr>hosts := (hosts c)(hostName := None)\<rparr>
        in (None, UnregisterHost_loop c1 hostName 0))"

subsection \<open>Load counters\<close>

text \<open>
  \<^verbatim>\<open>Inc\<close> takes the address of the counter of \<^verbatim>\<open>c.hosts[hostName]\<close> without looking
  whether the map has the host; on an absent host that pointer is \<^verbatim>\<open>nil\<close>, and the
  panic comes before either counter is touched. \<^verbatim>\<open>Done\<close> and \<^verbatim>\<open>UpdateLoad\<close> test
  the map first. \<^verbatim>\<open>UpdateLoad\<close> reads the old counter as \<^verbatim>\<open>loadBound\<close>, which is the
  field \<^verbatim>\<open>LoadBound\<close>.
\<close>

definition Inc :: "Consistent \<Rightarrow> string \<Rightarrow> unit outcome \<times> Consistent" where
  "Inc c hostName =
     (case hosts c hostName of
        None \<Rightarrow> (Panic NilDereference, c)
      | Some h \<Rightarrow>
          (Return (),
           c\<lparr>hosts := (hosts c)(hostName \<mapsto> h\<lparr>LoadBound := LoadBound h + 1\<rparr>),
             totalLoad := totalLoad c + 1\<rparr>))"

definition Done :: "Consistent \<Rightarrow> string \<Rightarrow> Consistent" where
  "Done c host =
     (case hosts c host of
        None \<Rightarrow> c
      | Some h \<Rightarrow>
          c\<lparr>hosts := (hosts c)(host \<mapsto> h\<lparr>LoadBound := LoadBound h - 1\<rparr>),
            totalLoad := totalLoad c - 1\<rparr>)"

definition UpdateLoad :: "Consistent \<Rightarrow> string \<Rightarrow> int64 \<Rightarrow> Consistent" where
  "UpdateLoad c host load =
     (case hosts c host of
        None \<Rightarrow> c
      | Some h \<Rightarrow>
          c\<lparr>totalLoad := totalLoad c - LoadBound h + load,
            hosts := (hosts c)(host \<mapsto> h\<lparr>LoadBound := load\<rparr>)\<rparr>)"

subsection \<open>Snapshots\<close>

text \<open>
  \<^verbatim>\<open>Hosts\<close> returns the keys of \<^verbatim>\<open>hosts\<close> in the order of a map iteration, which Go
  leaves open: the model returns them as a set. \<^verbatim>\<open>GetLoads\<close> returns a fresh map. Each is
  given the state and returns it, as the methods have a pointer receiver.
\<close>

definition Hosts :: "Consistent \<Rightarrow> string set \<times> Consistent" where
  "Hosts c = (dom (hosts c), c)"

definition GetLoads :: "Consistent \<Rightarrow> (string \<rightharpoonup> int64) \<times> Consistent" where
  "GetLoads c = ((\<lambda>k. map_option LoadBound (hosts c k)), c)"

definition MaxLoad :: "Consistent \<Rightarrow> int64 outcome \<times> Consistent" where
  "MaxLoad c =
     (let c1 = (if totalLoad c = 0 then c\<lparr>totalLoad := 1\<rparr> else c)
      in if len_map (hosts c1) = 0 then (Panic IntegerDivideByZero, c1)
         else
           let avgLoadPerNode0 =
                 float64_of_int64 (int64_div (totalLoad c1) (of_nat (len_map (hosts c1))));
               avgLoadPerNode1 = (if avgLoadPerNode0 = 0 then 1 else avgLoadPerNode0);
               avgLoadPerNode2 =
                 math_Ceil (f64_mul avgLoadPerNode1 (f64_add 1 LoadBoundFactor))
           in (Return (int64_of_float64 avgLoadPerNode2), c1))"

subsection \<open>Lookup\<close>

text \<open>
  \<^verbatim>\<open>sort.Search(n, f)\<close> of the Go standard library: bisection for the least index in
  \<open>[0, n)\<close> at which \<open>f\<close> holds, \<open>n\<close> when there is none. It calls \<open>f\<close> only inside
  \<open>[0, n)\<close>.
\<close>

function Search_loop :: "(nat \<Rightarrow> bool) \<Rightarrow> nat \<Rightarrow> nat \<Rightarrow> nat" where
  "Search_loop f i j =
     (if i < j then
        let h = (i + j) div 2
        in if \<not> f h then Search_loop f (h + 1) j else Search_loop f i h
      else i)"
  by pat_completeness auto
termination
  by (relation "measure (\<lambda>(f, i, j). j - i)") auto

declare Search_loop.simps [simp del]

definition Search :: "nat \<Rightarrow> (nat \<Rightarrow> bool) \<Rightarrow> nat" where
  "Search n f = Search_loop f 0 n"

definition searchKey :: "Consistent \<Rightarrow> uint64 \<Rightarrow> nat" where
  "searchKey c key =
     (let idx = Search (length (ring c)) (\<lambda>i. key \<le> ring c ! i)
      in if length (ring c) \<le> idx then 0 else idx)"

text \<open>\<^verbatim>\<open>GetHost\<close> indexes the ring at the position found; Go checks the bound.\<close>

definition GetHost :: "Consistent \<Rightarrow> string \<Rightarrow> (string \<times> error option) outcome" where
  "GetHost c key =
     (let hashedKey = hashFunc c key;
          idx = searchKey c hashedKey
      in if idx < length (ring c)
         then Return (lookup_string (virt2host c) (ring c ! idx), None)
         else Panic IndexOutOfRange)"

subsection \<open>Bounded-load lookup\<close>

text \<open>
  \<^verbatim>\<open>checkLoadCapacity\<close> first resets a negative \<^verbatim>\<open>totalLoad\<close>, then divides in
  \<^verbatim>\<open>int64\<close>, converts the quotient, replaces a zero average by 1, and compares in
  \<^verbatim>\<open>float64\<close>.
\<close>

definition checkLoadCapacity ::
    "Consistent \<Rightarrow> string \<Rightarrow> (bool \<times> error option) outcome \<times> Consistent" where
  "checkLoadCapacity c host =
     (let c1 = (if sint (totalLoad c) < 0 then c\<lparr>totalLoad := 0\<rparr> else c)
      in if len_map (hosts c1) = 0 then (Panic IntegerDivideByZero, c1)
         else
           let avgLoadPerNode0 =
                 float64_of_int64 (int64_div (totalLoad c1 + 1) (of_nat (len_map (hosts c1))));
               avgLoadPerNode1 = (if avgLoadPerNode0 = 0 then 1 else avgLoadPerNode0);
               avgLoadPerNode2 =
                 math_Ceil (f64_mul avgLoadPerNode1 (f64_add 1 LoadBoundFactor))
           in case hosts c1 host of
                None \<Rightarrow> (Return (False, Some ErrHostNotFound), c1)
              | Some candidateHost \<Rightarrow>
                  if f64_add (float64_of_int64 (LoadBound candidateHost)) 1 \<le> avgLoadPerNode2
                  then (Return (True, None), c1)
                  else (Return (False, None), c1))"

text \<open>
  The walk of \<^verbatim>\<open>GetHostCapacious\<close> is a \<^verbatim>\<open>for\<close> without a condition. The model counts
  its iterations: \<open>walk n c i\<close> runs at most \<open>n\<close> of them from ring index \<open>i\<close> and is
  \<open>None\<close> when the loop has not returned by then. The index wraps at the size of the map
  \<^verbatim>\<open>virt2host\<close>.
\<close>

fun walk ::
    "nat \<Rightarrow> Consistent \<Rightarrow> nat \<Rightarrow> ((string \<times> error option) outcome \<times> Consistent) option" where
  "walk 0 c i = None"
| "walk (Suc n) c i =
     (if i < length (ring c) then
        let host = lookup_string (virt2host c) (ring c ! i)
        in case checkLoadCapacity c host of
             (Panic p, c1) \<Rightarrow> Some (Panic p, c1)
           | (Return (loadChecked, err), c1) \<Rightarrow>
               if err \<noteq> None then Some (Return ([], err), c1)
               else if loadChecked then Some (Return (host, err), c1)
               else walk n c1 (if len_map (virt2host c1) \<le> i + 1 then 0 else i + 1)
      else Some (Panic IndexOutOfRange, c))"

definition GetHostCapacious ::
    "nat \<Rightarrow> Consistent \<Rightarrow> string \<Rightarrow> ((string \<times> error option) outcome \<times> Consistent) option" where
  "GetHostCapacious n c key =
     (if len_map (virt2host c) = 0 then Some (Return ([], Some ErrHostNotFound), c)
      else
        let hashedKey = hashFunc c key;
            idx = searchKey c hashedKey
        in walk n c idx)"

section \<open>Vocabulary of the properties\<close>

subsection \<open>The threshold in closed form\<close>

text \<open>
  The first statement of \<^verbatim>\<open>checkLoadCapacity\<close>, on its own: a negative \<^verbatim>\<open>totalLoad\<close>
  is reset to 0.
\<close>

definition clampTotalLoad :: "Consistent \<Rightarrow> Consistent" where
  "clampTotalLoad c = (if sint (totalLoad c) < 0 then c\<lparr>totalLoad := 0\<rparr> else c)"

text \<open>
  What \<^verbatim>\<open>checkLoadCapacity\<close> and \<^verbatim>\<open>MaxLoad\<close> compute from a dividend \<open>d\<close> and \<open>n\<close>
  hosts when no operation rounds: the integer quotient, 1 in place of a quotient 0, times
  \<open>1 + 0.25\<close>, rounded up. \<^verbatim>\<open>checkLoadCapacity\<close> divides \<open>totalLoad + 1\<close>.
\<close>

definition threshold :: "int \<Rightarrow> nat \<Rightarrow> int" where
  "threshold d n =
     (let q = d div int n; avg = (if q = 0 then 1 else q)
      in \<lceil>(of_int avg :: rat) * (1 + 1 / 4)\<rceil>)"

definition capacity :: "int \<Rightarrow> nat \<Rightarrow> int" where
  "capacity T n = threshold (T + 1) n"

text \<open>
  The threshold in the words of the specification: \<open>(totalLoad + 1) / hostCount\<close> divided
  as real numbers, times \<open>1 + loadBoundFactor\<close>, rounded up once, and not below 1 when the
  average is 0. \<open>spec_capacity_f64\<close> is the same with the division and the product done
  in \<^verbatim>\<open>float64\<close>.
\<close>

definition spec_capacity :: "int \<Rightarrow> nat \<Rightarrow> int" where
  "spec_capacity T n =
     (let avg = (of_int (T + 1) :: rat) / of_nat n; cap = \<lceil>avg * (1 + 1 / 4)\<rceil>
      in if avg = 0 then max 1 cap else cap)"

definition spec_capacity_f64 :: "int \<Rightarrow> nat \<Rightarrow> int" where
  "spec_capacity_f64 T n =
     (let avg = f64_round ((of_int (T + 1) :: rat) / of_nat n);
          cap = \<lceil>f64_mul avg (f64_add 1 LoadBoundFactor)\<rceil>
      in if avg = 0 then max 1 cap else cap)"

text \<open>
  The states in which no \<^verbatim>\<open>int64\<close> operation of the threshold wraps and no
  \<^verbatim>\<open>float64\<close> operation rounds: the host map is finite, as every Go map is, and the
  counters and the number of hosts stay below \<open>2^50\<close>.
\<close>

definition exact_range :: "Consistent \<Rightarrow> bool" where
  "exact_range c \<longleftrightarrow>
     finite (dom (hosts c)) \<and> len_map (hosts c) < 2 ^ 50 \<and> sint (totalLoad c) < 2 ^ 50 \<and>
     (\<forall>name H. hosts c name = Some H \<longrightarrow> \<bar>sint (LoadBound H)\<bar> < 2 ^ 50)"

subsection \<open>Accounting and ring invariants\<close>

definition loadOf :: "Consistent \<Rightarrow> string \<Rightarrow> int" where
  "loadOf c name = (case hosts c name of None \<Rightarrow> 0 | Some H \<Rightarrow> sint (LoadBound H))"

definition sumLoads :: "Consistent \<Rightarrow> int" where
  "sumLoads c = (\<Sum>name \<in> dom (hosts c). loadOf c name)"

text \<open>
  The same sum in \<^verbatim>\<open>int64\<close> arithmetic, and the states in which \<^verbatim>\<open>totalLoad\<close> is
  that sum.
\<close>

definition counterSum :: "(string \<rightharpoonup> Host) \<Rightarrow> int64" where
  "counterSum m = (\<Sum>name \<in> dom m. case m name of None \<Rightarrow> 0 | Some H \<Rightarrow> LoadBound H)"

definition balanced :: "Consistent \<Rightarrow> bool" where
  "balanced c \<longleftrightarrow> finite (dom (hosts c)) \<and> totalLoad c = counterSum (hosts c)"

text \<open>
  The states in which the walk of \<^verbatim>\<open>GetHostCapacious\<close> is shown to return: the ring is
  not empty and has as many entries as \<^verbatim>\<open>virt2host\<close> has keys, every ring entry belongs
  to a registered host, every registered host has a ring entry, and \<^verbatim>\<open>totalLoad\<close>, once
  reset if negative, is not below the sum of the hosts' counters.
\<close>

definition walk_ready :: "Consistent \<Rightarrow> bool" where
  "walk_ready c \<longleftrightarrow>
     ring c \<noteq> [] \<and>
     len_map (virt2host c) = length (ring c) \<and>
     (\<forall>x \<in> set (ring c). \<exists>name. virt2host c x = Some name \<and> hosts c name \<noteq> None) \<and>
     (\<forall>name. hosts c name \<noteq> None \<longrightarrow> (\<exists>x \<in> set (ring c). virt2host c x = Some name)) \<and>
     sumLoads c \<le> max 0 (sint (totalLoad c)) \<and>
     exact_range c"

subsection \<open>Example instances\<close>

text \<open>
  Two hash functions a caller may pass to \<^verbatim>\<open>New\<close>: a polynomial hash of the bytes of
  the key, and a constant one, under which all virtual nodes collide. \<open>no_digest\<close> stands
  for \<^verbatim>\<open>sha512.Sum512\<close> in instances that never call it.
\<close>

definition poly_hash :: "string \<Rightarrow> uint64" where
  "poly_hash s = foldl (\<lambda>h ch. 31 * h + of_nat (of_char ch)) 0 s"

definition zero_hash :: "string \<Rightarrow> uint64" where
  "zero_hash s = 0"

definition no_digest :: "string \<Rightarrow> byte list" where
  "no_digest key = replicate 64 0"

text \<open>Calls in sequence, each on the state the previous one left.\<close>

definition registerAll :: "Consistent \<Rightarrow> string list \<Rightarrow> Consistent" where
  "registerAll c names = foldl (\<lambda>c name. snd (RegisterHost c name)) c names"

definition incAll :: "Consistent \<Rightarrow> string list \<Rightarrow> Consistent" where
  "incAll c names = foldl (\<lambda>c name. snd (Inc c name)) c names"

text \<open>
  What the proxy does for one request: \<^verbatim>\<open>GetHostCapacious(key)\<close>, then \<^verbatim>\<open>Inc\<close> on the
  host returned. \<open>assignAll\<close> serves the keys of a list one after the other and stops at
  the first call that does not return a host.
\<close>

definition assign :: "nat \<Rightarrow> Consistent \<Rightarrow> string \<Rightarrow> (string \<times> Consistent) option" where
  "assign n c key =
     (case GetHostCapacious n c key of
        Some (Return (host, None), c1) \<Rightarrow>
          (case Inc c1 host of (Return u, c2) \<Rightarrow> Some (host, c2) | (Panic p, c2) \<Rightarrow> None)
      | _ \<Rightarrow> None)"

fun assignAll :: "nat \<Rightarrow> Consistent \<Rightarrow> string list \<Rightarrow> Consistent option" where
  "assignAll n c [] = Some c"
| "assignAll n c (key # keys) =
     (case assign n c key of None \<Rightarrow> None | Some (host, c1) \<Rightarrow> assignAll n c1 keys)"

text \<open>One host \<open>a\<close> with one replica, for any digest and any hash function, \<^verbatim>\<open>nil\<close> too.\<close>

definition one_host :: "(string \<Rightarrow> byte list) \<Rightarrow> (string \<Rightarrow> uint64) option \<Rightarrow> Consistent" where
  "one_host Sum512 hf = registerAll (New Sum512 1 hf) [''a'']"

text \<open>Hosts \<open>a\<close>, \<open>b\<close>, \<open>c\<close>, one replica each, and no load.\<close>

definition three_hosts :: Consistent where
  "three_hosts = registerAll (New no_digest 1 (Some poly_hash)) [''a'', ''b'', ''c'']"

text \<open>
  Hosts \<open>a\<close>, \<open>b\<close>, \<open>c\<close>, \<open>d\<close>, one replica each: without load, after one and after two
  calls of \<^verbatim>\<open>Inc\<close> on \<open>a\<close>, and with loads 2, 2, 1, 1 after six calls of \<^verbatim>\<open>Inc\<close>.
\<close>

definition four_idle :: Consistent where
  "four_idle = registerAll (New no_digest 1 (Some poly_hash)) [''a'', ''b'', ''c'', ''d'']"

definition one_assigned :: Consistent where
  "one_assigned = incAll four_idle [''a'']"

definition two_assigned :: Consistent where
  "two_assigned = incAll four_idle [''a'', ''a'']"

definition four_hosts :: Consistent where
  "four_hosts = incAll four_idle [''a'', ''a'', ''b'', ''b'', ''c'', ''d'']"

text \<open>Hosts \<open>b\<close> and \<open>a\<close> with two replicas each.\<close>

definition two_by_two :: Consistent where
  "two_by_two = registerAll (New no_digest 2 (Some poly_hash)) [''b'', ''a'']"

text \<open>
  Hosts \<open>a\<close> and \<open>b\<close> under the constant hash, one replica each: without load, after one
  and after two calls of \<^verbatim>\<open>Inc\<close> on \<open>b\<close>.
\<close>

definition colliding_idle :: Consistent where
  "colliding_idle = registerAll (New no_digest 1 (Some zero_hash)) [''a'', ''b'']"

definition colliding_once :: Consistent where
  "colliding_once = incAll colliding_idle [''b'']"

definition colliding :: Consistent where
  "colliding = incAll colliding_idle [''b'', ''b'']"

subsection \<open>Reachable states\<close>

text \<open>
  The states of an instance: what \<^verbatim>\<open>New\<close> returns, and what any method leaves behind,
  whether it returns or panics.
\<close>

inductive reachable :: "Consistent \<Rightarrow> bool" where
  reachable_New: "reachable (New Sum512 r hf)"
| reachable_RegisterHost: "reachable c \<Longrightarrow> reachable (snd (RegisterHost c hostName))"
| reachable_UnregisterHost: "reachable c \<Longrightarrow> reachable (snd (UnregisterHost c hostName))"
| reachable_UpdateLoad: "reachable c \<Longrightarrow> reachable (UpdateLoad c host load)"
| reachable_Inc: "reachable c \<Longrightarrow> reachable (snd (Inc c hostName))"
| reachable_Done: "reachable c \<Longrightarrow> reachable (Done c host)"
| reachable_MaxLoad: "reachable c \<Longrightarrow> reachable (snd (MaxLoad c))"
| reachable_GetHostCapacious:
    "reachable c \<Longrightarrow> GetHostCapacious n c key = Some (res, c1) \<Longrightarrow> reachable c1"

code_pred reachable .

section \<open>Exact arithmetic below \<open>2^50\<close>\<close>

subsection \<open>Rounding to \<^verbatim>\<open>float64\<close>\<close>

lemma round_even_of_int: "round_even (of_int z) = z"
  by (simp add: round_even_def)

lemma f64_exponent_range:
  assumes "1 \<le> \<bar>x\<bar>" "\<bar>x\<bar> < 2 ^ p"
  shows "0 \<le> f64_exponent x \<and> f64_exponent x < int p"
proof -
  let ?n = "\<lfloor>\<bar>x\<bar>\<rfloor>"
  have n1: "1 \<le> ?n" using assms(1) by (simp add: le_floor_iff)
  have "?n < 2 ^ p" using assms(2) by (simp add: floor_less_iff)
  then have "bitlen ?n \<le> int p" using n1
    by (simp add: bitlen_le_iff_power)
  moreover have "1 \<le> bitlen ?n" using n1
    by (simp add: bitlen_ge_iff_power)
  ultimately show ?thesis using assms(1) by (simp add: f64_exponent_def)
qed

text \<open>
  A number \<open>k / 2^m\<close> of magnitude between 1 and \<open>2^p\<close> has at most \<open>p + m\<close>
  significant bits; with \<open>p + m \<le> 53\<close> it is a \<^verbatim>\<open>float64\<close>.
\<close>

lemma f64_round_dyadic:
  assumes x: "x = of_int k / 2 ^ m" and lo: "1 \<le> \<bar>x\<bar>" and hi: "\<bar>x\<bar> < 2 ^ p"
    and pm: "p + m \<le> 53"
  shows "f64_round x = x"
proof -
  have x0: "x \<noteq> 0" using lo by auto
  define j where "j = nat (52 - f64_exponent x)"
  from f64_exponent_range [OF lo hi] pm have j: "m \<le> j" "f64_exponent x - 52 = - int j"
    unfolding j_def by linarith+
  have u: "(2::rat) powi (f64_exponent x - 52) = 1 / 2 ^ j"
    using j by (simp add: power_int_minus divide_inverse)
  obtain i where i: "j = i + m" using j(1) by (metis add.commute le_Suc_ex)
  have "x / (1 / 2 ^ j) = of_int (k * 2 ^ i)"
    by (simp add: x i power_add)
  then have "of_int (round_even (x / (1 / 2 ^ j))) * (1 / 2 ^ j)
               = (of_int (k * 2 ^ i) :: rat) * (1 / 2 ^ j)"
    by (simp only: round_even_of_int)
  also have "\<dots> = x" by (simp add: x i power_add)
  finally show ?thesis using x0 by (simp add: f64_round_def u Let_def)
qed

text \<open>A multiple of \<open>1/4\<close> that is 0 or between 1 and \<open>2^51\<close> in magnitude is a \<^verbatim>\<open>float64\<close>.\<close>

lemma f64_round_exact:
  assumes x: "x = of_int k / 4" and lo: "x = 0 \<or> 1 \<le> \<bar>x\<bar>" and hi: "\<bar>x\<bar> < 2 ^ 51"
  shows "f64_round x = x"
proof (cases "x = 0")
  case True
  then show ?thesis by (simp add: f64_round_def)
next
  case False
  with lo have lo': "1 \<le> \<bar>x\<bar>" by simp
  have "x = of_int k / 2 ^ 2" using x by simp
  then show ?thesis using lo' hi by (rule f64_round_dyadic) simp
qed

lemma rat_of_int_abs_less:
  assumes "\<bar>l\<bar> < 2 ^ n"
  shows "\<bar>(of_int l :: rat)\<bar> < 2 ^ n"
proof -
  have "(of_int \<bar>l\<bar> :: rat) < 2 ^ n"
    using assms by (simp only: of_int_less_numeral_power_cancel_iff)
  then show ?thesis by (simp only: of_int_abs)
qed

lemma rat_of_int_zero_or_ge1: "(of_int l :: rat) = 0 \<or> 1 \<le> \<bar>(of_int l :: rat)\<bar>"
proof (cases "l = 0")
  case True
  then show ?thesis by simp
next
  case False
  then have "1 \<le> \<bar>l\<bar>" by simp
  then have "(1::rat) \<le> of_int \<bar>l\<bar>" by (simp only: of_int_1_le_iff)
  then show ?thesis by (simp only: of_int_abs) simp
qed

lemma f64_round_of_int:
  assumes "\<bar>l\<bar> < 2 ^ 51"
  shows "f64_round (of_int l) = of_int l"
proof -
  have "(of_int l :: rat) = of_int (4 * l) / 4" by simp
  then show ?thesis
    using rat_of_int_zero_or_ge1 [of l] rat_of_int_abs_less [OF assms]
    by (rule f64_round_exact)
qed

lemma float64_of_int64_exact:
  "\<bar>sint w\<bar> < 2 ^ 51 \<Longrightarrow> float64_of_int64 w = of_int (sint w)"
  unfolding float64_of_int64_def by (rule f64_round_of_int)

lemma one_plus_LoadBoundFactor: "f64_add 1 LoadBoundFactor = 5 / 4"
proof -
  have "f64_round (5 / 4) = 5 / 4"
    by (rule f64_round_exact [where k = 5]) simp_all
  then show ?thesis by (simp add: f64_add_def LoadBoundFactor_def)
qed

lemma f64_mul_five_quarters:
  assumes "1 \<le> a" "a \<le> 2 ^ 50"
  shows "f64_mul (of_int a) (5 / 4) = of_int (5 * a) / 4"
proof -
  have "\<bar>5 * a\<bar> < 2 ^ 53" using assms by simp
  then have "\<bar>(of_int (5 * a) :: rat)\<bar> < 2 ^ 53" by (rule rat_of_int_abs_less)
  then have hi: "\<bar>(of_int (5 * a) :: rat) / 4\<bar> < 2 ^ 51" by simp
  have "(4::rat) \<le> of_int (5 * a)" using assms(1) by simp
  then have lo: "1 \<le> \<bar>(of_int (5 * a) :: rat) / 4\<bar>" by simp
  have "f64_round (of_int (5 * a) / 4) = of_int (5 * a) / 4"
    using lo hi by (intro f64_round_exact [where k = "5 * a"]) simp_all
  moreover have "(of_int a :: rat) * (5 / 4) = of_int (5 * a) / 4" by simp
  ultimately show ?thesis by (simp only: f64_mul_def)
qed

lemma f64_add_one_exact:
  assumes "\<bar>l\<bar> < 2 ^ 50"
  shows "f64_add (of_int l) 1 = of_int (l + 1)"
proof -
  have "\<bar>l + 1\<bar> < 2 ^ 51" using assms by simp
  then have "f64_round (of_int (l + 1)) = of_int (l + 1)" by (rule f64_round_of_int)
  moreover have "(of_int l :: rat) + 1 = of_int (l + 1)" by simp
  ultimately show ?thesis by (simp only: f64_add_def)
qed

subsection \<open>\<^verbatim>\<open>int64\<close> without wrap-around\<close>

lemma sint_word_of_int_64:
  "- (2 ^ 63) \<le> k \<Longrightarrow> k < 2 ^ 63 \<Longrightarrow> sint (word_of_int k :: 64 word) = k"
  by (simp add: sint_sbintrunc' signed_take_bit_int_eq_self)

lemma sint_of_nat_64: "n < 2 ^ 63 \<Longrightarrow> sint (of_nat n :: 64 word) = int n"
  using sint_word_of_int_64 [of "int n"] by simp

lemma sint_plus_one_64:
  assumes "sint (w :: 64 word) < 2 ^ 63 - 1"
  shows "sint (w + 1) = sint w + 1"
proof -
  have "- (2 ^ 63) \<le> sint w" using sint_ge [of w] by simp
  then show ?thesis using assms
    by (simp add: sint_word_add signed_take_bit_int_eq_self)
qed

lemma sint_int64_div:
  assumes "0 \<le> sint a" "0 < sint b"
  shows "sint (int64_div a b) = sint a div sint b"
proof -
  have eq: "sint a sdiv sint b = sint a div sint b"
    using assms by (simp add: signed_divide_int_def sgn_if)
  have "0 \<le> sint a div sint b" using assms by (simp add: pos_imp_zdiv_nonneg_iff)
  moreover have "sint a div sint b \<le> sint a div 1"
    using assms by (intro zdiv_mono2) simp_all
  moreover have "sint a < 2 ^ 63" using sint_lt [of a] by simp
  ultimately have "- (2 ^ 63) \<le> sint a div sint b" "sint a div sint b < 2 ^ 63"
    by simp_all
  then show ?thesis
    unfolding int64_div_def eq by (rule sint_word_of_int_64)
qed

subsection \<open>The threshold\<close>

lemma threshold_exact:
  assumes d: "0 \<le> sint d" "sint d \<le> 2 ^ 50" and n: "0 < n" "n < 2 ^ 50"
  shows "math_Ceil (f64_mul
           (if float64_of_int64 (int64_div d (of_nat n)) = 0 then 1
            else float64_of_int64 (int64_div d (of_nat n)))
           (f64_add 1 LoadBoundFactor)) = of_int (threshold (sint d) n)"
proof -
  have sn: "sint (of_nat n :: 64 word) = int n"
    using n(2) by (intro sint_of_nat_64) simp
  define q where "q = sint d div int n"
  have sq: "sint (int64_div d (of_nat n)) = q"
    using d(1) n(1) by (simp add: sint_int64_div sn q_def)
  have q0: "0 \<le> q" using d(1) n(1) by (simp add: q_def pos_imp_zdiv_nonneg_iff)
  have "q \<le> sint d div 1"
    unfolding q_def using d(1) n(1) by (intro zdiv_mono2) simp_all
  then have qhi: "q \<le> 2 ^ 50" using d(2) by simp
  then have "\<bar>q\<bar> < 2 ^ 51" using q0 by simp
  then have fq: "float64_of_int64 (int64_div d (of_nat n)) = of_int q"
    using sq by (simp add: float64_of_int64_exact)
  define avg where "avg = (if q = 0 then 1 else q)"
  have avg: "1 \<le> avg" "avg \<le> 2 ^ 50" using q0 qhi by (simp_all add: avg_def)
  have "(if float64_of_int64 (int64_div d (of_nat n)) = 0 then 1
         else float64_of_int64 (int64_div d (of_nat n))) = (of_int avg :: rat)"
    by (simp add: fq avg_def)
  moreover have "f64_mul (of_int avg) (5 / 4) = of_int avg * (1 + 1 / 4)"
    by (simp add: f64_mul_five_quarters [OF avg])
  ultimately show ?thesis
    by (simp only: one_plus_LoadBoundFactor math_Ceil_def threshold_def Let_def q_def avg_def)
qed

lemma load_test_exact:
  assumes "\<bar>sint l\<bar> < 2 ^ 50"
  shows "f64_add (float64_of_int64 l) 1 \<le> of_int k \<longleftrightarrow> sint l + 1 \<le> k"
proof -
  have "\<bar>sint l\<bar> < 2 ^ 51" using assms by simp
  then have "float64_of_int64 l = of_int (sint l)" by (rule float64_of_int64_exact)
  then have "f64_add (float64_of_int64 l) 1 = of_int (sint l + 1)"
    using f64_add_one_exact [OF assms] by simp
  then show ?thesis by (simp only: of_int_le_iff)
qed

text \<open>The same threshold without rationals.\<close>

lemma ceiling_five_quarters: "\<lceil>(of_int a :: rat) * (1 + 1 / 4)\<rceil> = - (- (5 * a) div 4)"
proof -
  have "(of_int a :: rat) * (1 + 1 / 4) = of_int (5 * a) / of_int 4" by simp
  then show ?thesis by (simp only: ceiling_divide_eq_div)
qed

lemma threshold_int:
  "threshold d n = (let q = d div int n; avg = (if q = 0 then 1 else q) in - (- (5 * avg) div 4))"
  by (simp only: threshold_def ceiling_five_quarters)

lemma capacity_int:
  "capacity T n =
     (let q = (T + 1) div int n; avg = (if q = 0 then 1 else q) in - (- (5 * avg) div 4))"
  by (simp only: capacity_def threshold_int)

subsection \<open>\<^verbatim>\<open>checkLoadCapacity\<close> in closed form\<close>

lemma clampTotalLoad_fields [simp]:
  "hosts (clampTotalLoad c) = hosts c"
  "ring (clampTotalLoad c) = ring c"
  "virt2host (clampTotalLoad c) = virt2host c"
  "hashFunc (clampTotalLoad c) = hashFunc c"
  "replicaNum (clampTotalLoad c) = replicaNum c"
  "sint (totalLoad (clampTotalLoad c)) = max 0 (sint (totalLoad c))"
  by (simp_all add: clampTotalLoad_def)

lemma clampTotalLoad_idem [simp]: "clampTotalLoad (clampTotalLoad c) = clampTotalLoad c"
  by (simp add: clampTotalLoad_def)

lemma clampTotalLoad_id: "0 \<le> sint (totalLoad c) \<Longrightarrow> clampTotalLoad c = c"
  by (simp add: clampTotalLoad_def)

lemma exact_range_clamp [simp]: "exact_range (clampTotalLoad c) = exact_range c"
  by (simp add: exact_range_def)

lemma checkLoadCapacity_exact:
  assumes r: "exact_range c" and n: "0 < len_map (hosts c)"
  shows "checkLoadCapacity c host =
           ((case hosts c host of
               None \<Rightarrow> Return (False, Some ErrHostNotFound)
             | Some H \<Rightarrow>
                 Return (sint (LoadBound H) + 1
                           \<le> capacity (max 0 (sint (totalLoad c))) (len_map (hosts c)), None)),
            clampTotalLoad c)"
proof -
  let ?c1 = "clampTotalLoad c"
  have c1: "(if sint (totalLoad c) < 0 then c\<lparr>totalLoad := 0\<rparr> else c) = ?c1"
    by (simp add: clampTotalLoad_def)
  have T: "0 \<le> sint (totalLoad ?c1)" "sint (totalLoad ?c1) < 2 ^ 50"
    using r by (simp_all add: exact_range_def)
  have T1: "sint (totalLoad ?c1 + 1) = sint (totalLoad ?c1) + 1"
    using T(2) by (intro sint_plus_one_64) simp
  have d: "0 \<le> sint (totalLoad ?c1 + 1)" "sint (totalLoad ?c1 + 1) \<le> 2 ^ 50"
    using T unfolding T1 by simp_all
  have n': "len_map (hosts c) < 2 ^ 50" using r by (simp add: exact_range_def)
  note th = threshold_exact [OF d n n', unfolded T1]
  show ?thesis
  proof (cases "hosts c host")
    case None
    then show ?thesis using n
      by (simp add: checkLoadCapacity_def c1 Let_def)
  next
    case (Some H)
    then have "\<bar>sint (LoadBound H)\<bar> < 2 ^ 50" using r by (simp add: exact_range_def)
    note lt = load_test_exact [OF this]
    show ?thesis using n Some
      by (simp add: checkLoadCapacity_def c1 Let_def th lt capacity_def)
  qed
qed

section \<open>The default hash reads the digest little-endian\<close>

lemma unat_ucast_byte: "unat (ucast (b :: 8 word) :: 64 word) = unat b"
proof -
  have "unat b < 2 ^ 8" using unsigned_less [of b] by simp
  then have "unat b < 2 ^ 64" by simp
  then show ?thesis by (simp add: unsigned_ucast_eq take_bit_nat_eq_self)
qed

lemma unat_push_bit_8:
  fixes w :: "64 word"
  assumes "unat w < 2 ^ 56"
  shows "unat (push_bit 8 w) = 256 * unat w"
  proof -
    have "unat (push_bit 8 w) = take_bit 64 (push_bit 8 (unat w))"
      by (simp only: unsigned_push_bit_eq len_bit0 len_num1) simp
    moreover have "push_bit 8 (unat w) = 256 * unat w" by (simp add: push_bit_eq_mult)
    moreover have "256 * unat w < 2 ^ 64" using assms by simp
    ultimately show ?thesis by (simp only: take_bit_nat_eq_self)
  qed
lemma unat_byte_or_shift:
  fixes b :: "8 word" and w :: "64 word"
  assumes "unat w < 2 ^ 56"
  shows "unat (ucast b OR push_bit 8 w) = unat b + 256 * unat w"
proof -
  have b: "unat b < 2 ^ 8" using unsigned_less [of b] by simp
  have "(ucast b :: 64 word) AND push_bit 8 w = 0"
    by (rule bit_eqI) (auto simp: bit_simps dest: bit_imp_le_length)
  then have eq: "ucast b OR push_bit 8 w = (ucast b :: 64 word) + push_bit 8 w"
    by (simp only: disjunctive_add_eq_or)
  have "unat (ucast b :: 64 word) + unat (push_bit 8 w) < 2 ^ 64"
    using b assms by (simp only: unat_ucast_byte unat_push_bit_8 [OF assms]) simp
  then have "unat ((ucast b :: 64 word) + push_bit 8 w)
               = unat (ucast b :: 64 word) + unat (push_bit 8 w)"
    using unat_add_lem [of "ucast b :: 64 word" "push_bit 8 w"] by simp
  then show ?thesis
    by (simp only: eq unat_ucast_byte unat_push_bit_8 [OF assms])
qed

lemma LittleEndian_Uint64_horner:
  "LittleEndian_Uint64 b =
     ucast (b ! 0) OR push_bit 8 (ucast (b ! 1) OR push_bit 8 (ucast (b ! 2) OR push_bit 8
       (ucast (b ! 3) OR push_bit 8 (ucast (b ! 4) OR push_bit 8 (ucast (b ! 5) OR push_bit 8
       (ucast (b ! 6) OR push_bit 8 (ucast (b ! 7))))))))"
  by (simp add: LittleEndian_Uint64_def push_bit_or push_bit_push_bit)
lemma sum8: "(\<Sum>i<8. f i * (256::nat) ^ i) =
          f 0 + 256 * (f 1 + 256 * (f 2 + 256 * (f 3
            + 256 * (f 4 + 256 * (f 5 + 256 * (f 6
            + 256 * f 7))))))"
proof -
  have "{..<8::nat} = {0,1,2,3,4,5,6,7}" by auto
  then show ?thesis by simp
qed
lemma unat_LittleEndian_Uint64:
  "unat (LittleEndian_Uint64 b) = (\<Sum>i<8. unat (b ! i) * 256 ^ i)"
proof -
  have b: "unat x < 256" for x :: "8 word" using unsigned_less [of x] by simp
  let ?w7 = "ucast (b ! 7) :: 64 word"
  let ?w6 = "ucast (b ! 6) OR push_bit 8 ?w7"
  let ?w5 = "ucast (b ! 5) OR push_bit 8 ?w6"
  let ?w4 = "ucast (b ! 4) OR push_bit 8 ?w5"
  let ?w3 = "ucast (b ! 3) OR push_bit 8 ?w4"
  let ?w2 = "ucast (b ! 2) OR push_bit 8 ?w3"
  let ?w1 = "ucast (b ! 1) OR push_bit 8 ?w2"
  let ?w0 = "ucast (b ! 0) OR push_bit 8 ?w1"
  have u7: "unat ?w7 = unat (b ! 7)" by (rule unat_ucast_byte)
  have l7: "unat ?w7 < 2 ^ 8" using b [of "b ! 7"] by (simp only: u7) simp
  have u6: "unat ?w6 = unat (b ! 6) + 256 * unat ?w7"
    by (rule unat_byte_or_shift, rule less_le_trans [OF l7]) simp
  have l6: "unat ?w6 < 2 ^ 16" using b [of "b ! 6"] l7 by (simp only: u6) simp
  have u5: "unat ?w5 = unat (b ! 5) + 256 * unat ?w6"
    by (rule unat_byte_or_shift, rule less_le_trans [OF l6]) simp
  have l5: "unat ?w5 < 2 ^ 24" using b [of "b ! 5"] l6 by (simp only: u5) simp
  have u4: "unat ?w4 = unat (b ! 4) + 256 * unat ?w5"
    by (rule unat_byte_or_shift, rule less_le_trans [OF l5]) simp
  have l4: "unat ?w4 < 2 ^ 32" using b [of "b ! 4"] l5 by (simp only: u4) simp
  have u3: "unat ?w3 = unat (b ! 3) + 256 * unat ?w4"
    by (rule unat_byte_or_shift, rule less_le_trans [OF l4]) simp
  have l3: "unat ?w3 < 2 ^ 40" using b [of "b ! 3"] l4 by (simp only: u3) simp
  have u2: "unat ?w2 = unat (b ! 2) + 256 * unat ?w3"
    by (rule unat_byte_or_shift, rule less_le_trans [OF l3]) simp
  have l2: "unat ?w2 < 2 ^ 48" using b [of "b ! 2"] l3 by (simp only: u2) simp
  have u1: "unat ?w1 = unat (b ! 1) + 256 * unat ?w2"
    by (rule unat_byte_or_shift, rule less_le_trans [OF l2]) simp
  have l1: "unat ?w1 < 2 ^ 56" using b [of "b ! 1"] l2 by (simp only: u1) simp
  have u0: "unat ?w0 = unat (b ! 0) + 256 * unat ?w1"
    using l1 by (rule unat_byte_or_shift)
  show ?thesis
    by (simp only: LittleEndian_Uint64_horner u0 u1 u2 u3 u4 u5 u6 u7 sum8)
qed

section \<open>The example instances, evaluated\<close>

lemmas run_defs =
  registerAll_def incAll_def New_def RegisterHost_def RegisterHost_loop.simps
  Sprintf_hostReplicaFormat_def decimal.simps poly_hash_def zero_hash_def
  UnregisterHost_def UnregisterHost_loop.simps delHashIndex_def delHashIndex_loop.simps
  Inc_def Done_def Let_def

lemma one_host_eq:
  "one_host Sum512 hf = \<lparr>replicaNum = 1, totalLoad = 0, hashFunc = hashFunc (New Sum512 1 hf),
      hosts = [''a'' \<mapsto> \<lparr>Name = ''a'', LoadBound = 0\<rparr>],
      virt2host = [hashFunc (New Sum512 1 hf) ''a0'' \<mapsto> ''a''],
      ring = [hashFunc (New Sum512 1 hf) ''a0'']\<rparr>"
  by (simp add: one_host_def run_defs)

lemma three_hosts_eq:
  "three_hosts = \<lparr>replicaNum = 1, totalLoad = 0, hashFunc = poly_hash,
      hosts = [''a'' \<mapsto> \<lparr>Name = ''a'', LoadBound = 0\<rparr>,
               ''b'' \<mapsto> \<lparr>Name = ''b'', LoadBound = 0\<rparr>,
               ''c'' \<mapsto> \<lparr>Name = ''c'', LoadBound = 0\<rparr>],
      virt2host = [3055 \<mapsto> ''a'', 3086 \<mapsto> ''b'', 3117 \<mapsto> ''c''],
      ring = [3055, 3086, 3117]\<rparr>"
  by (simp add: three_hosts_def run_defs)

lemma four_idle_eq:
  "four_idle = \<lparr>replicaNum = 1, totalLoad = 0, hashFunc = poly_hash,
      hosts = [''a'' \<mapsto> \<lparr>Name = ''a'', LoadBound = 0\<rparr>,
               ''b'' \<mapsto> \<lparr>Name = ''b'', LoadBound = 0\<rparr>,
               ''c'' \<mapsto> \<lparr>Name = ''c'', LoadBound = 0\<rparr>,
               ''d'' \<mapsto> \<lparr>Name = ''d'', LoadBound = 0\<rparr>],
      virt2host = [3055 \<mapsto> ''a'', 3086 \<mapsto> ''b'', 3117 \<mapsto> ''c'', 3148 \<mapsto> ''d''],
      ring = [3055, 3086, 3117, 3148]\<rparr>"
  by (simp add: four_idle_def run_defs)

lemma one_assigned_eq:
  "one_assigned = \<lparr>replicaNum = 1, totalLoad = 1, hashFunc = poly_hash,
      hosts = [''a'' \<mapsto> \<lparr>Name = ''a'', LoadBound = 1\<rparr>,
               ''b'' \<mapsto> \<lparr>Name = ''b'', LoadBound = 0\<rparr>,
               ''c'' \<mapsto> \<lparr>Name = ''c'', LoadBound = 0\<rparr>,
               ''d'' \<mapsto> \<lparr>Name = ''d'', LoadBound = 0\<rparr>],
      virt2host = [3055 \<mapsto> ''a'', 3086 \<mapsto> ''b'', 3117 \<mapsto> ''c'', 3148 \<mapsto> ''d''],
      ring = [3055, 3086, 3117, 3148]\<rparr>"
  by (simp add: one_assigned_def incAll_def Inc_def four_idle_eq fun_upd_twist)

lemma two_assigned_eq:
  "two_assigned = \<lparr>replicaNum = 1, totalLoad = 2, hashFunc = poly_hash,
      hosts = [''a'' \<mapsto> \<lparr>Name = ''a'', LoadBound = 2\<rparr>,
               ''b'' \<mapsto> \<lparr>Name = ''b'', LoadBound = 0\<rparr>,
               ''c'' \<mapsto> \<lparr>Name = ''c'', LoadBound = 0\<rparr>,
               ''d'' \<mapsto> \<lparr>Name = ''d'', LoadBound = 0\<rparr>],
      virt2host = [3055 \<mapsto> ''a'', 3086 \<mapsto> ''b'', 3117 \<mapsto> ''c'', 3148 \<mapsto> ''d''],
      ring = [3055, 3086, 3117, 3148]\<rparr>"
  by (simp add: two_assigned_def incAll_def Inc_def four_idle_eq fun_upd_twist)

lemma four_hosts_eq:
  "four_hosts = \<lparr>replicaNum = 1, totalLoad = 6, hashFunc = poly_hash,
      hosts = [''a'' \<mapsto> \<lparr>Name = ''a'', LoadBound = 2\<rparr>,
               ''b'' \<mapsto> \<lparr>Name = ''b'', LoadBound = 2\<rparr>,
               ''c'' \<mapsto> \<lparr>Name = ''c'', LoadBound = 1\<rparr>,
               ''d'' \<mapsto> \<lparr>Name = ''d'', LoadBound = 1\<rparr>],
      virt2host = [3055 \<mapsto> ''a'', 3086 \<mapsto> ''b'', 3117 \<mapsto> ''c'', 3148 \<mapsto> ''d''],
      ring = [3055, 3086, 3117, 3148]\<rparr>"
  by (simp add: four_hosts_def incAll_def Inc_def four_idle_eq fun_upd_twist)

lemma two_by_two_eq:
  "two_by_two = \<lparr>replicaNum = 2, totalLoad = 0, hashFunc = poly_hash,
      hosts = [''b'' \<mapsto> \<lparr>Name = ''b'', LoadBound = 0\<rparr>,
               ''a'' \<mapsto> \<lparr>Name = ''a'', LoadBound = 0\<rparr>],
      virt2host = [3086 \<mapsto> ''b'', 3087 \<mapsto> ''b'', 3055 \<mapsto> ''a'', 3056 \<mapsto> ''a''],
      ring = [3055, 3056, 3086, 3087]\<rparr>"
  by (simp add: two_by_two_def run_defs)

lemma exact_range_three_hosts: "exact_range three_hosts"
  by (simp add: exact_range_def three_hosts_eq len_map_def)

lemma exact_range_four_hosts: "exact_range four_hosts"
  by (simp add: exact_range_def four_hosts_eq len_map_def)

lemma exact_range_four_idle: "exact_range four_idle"
  by (simp add: four_idle_eq exact_range_def len_map_def)

lemma exact_range_one_assigned: "exact_range one_assigned"
  by (simp add: one_assigned_eq exact_range_def len_map_def)

lemma colliding_idle_eq:
  "colliding_idle = \<lparr>replicaNum = 1, totalLoad = 0, hashFunc = zero_hash,
      hosts = [''a'' \<mapsto> \<lparr>Name = ''a'', LoadBound = 0\<rparr>,
               ''b'' \<mapsto> \<lparr>Name = ''b'', LoadBound = 0\<rparr>],
      virt2host = [0 \<mapsto> ''b''], ring = [0, 0]\<rparr>"
  by (simp add: colliding_idle_def run_defs)

lemma colliding_eq:
  "colliding = \<lparr>replicaNum = 1, totalLoad = 2, hashFunc = zero_hash,
      hosts = [''a'' \<mapsto> \<lparr>Name = ''a'', LoadBound = 0\<rparr>,
               ''b'' \<mapsto> \<lparr>Name = ''b'', LoadBound = 2\<rparr>],
      virt2host = [0 \<mapsto> ''b''], ring = [0, 0]\<rparr>"
  by (simp add: colliding_def incAll_def Inc_def colliding_idle_eq)

lemma exact_range_colliding: "exact_range colliding"
  by (simp add: colliding_eq exact_range_def len_map_def)

lemma walk_ready_two_assigned: "walk_ready two_assigned"
proof -
  have "sumLoads two_assigned = 2"
    by (simp add: sumLoads_def loadOf_def two_assigned_eq)
  moreover have "exact_range two_assigned"
    by (simp add: two_assigned_eq exact_range_def len_map_def)
  moreover have "\<forall>name. hosts two_assigned name \<noteq> None \<longrightarrow>
                   (\<exists>x \<in> set (ring two_assigned). virt2host two_assigned x = Some name)"
    by (simp add: two_assigned_eq)
  ultimately show ?thesis
    by (simp add: walk_ready_def) (simp add: two_assigned_eq len_map_def)
qed

lemma colliding_once_eq:
  "colliding_once = \<lparr>replicaNum = 1, totalLoad = 1, hashFunc = zero_hash,
      hosts = [''a'' \<mapsto> \<lparr>Name = ''a'', LoadBound = 0\<rparr>,
               ''b'' \<mapsto> \<lparr>Name = ''b'', LoadBound = 1\<rparr>],
      virt2host = [0 \<mapsto> ''b''], ring = [0, 0]\<rparr>"
  by (simp add: colliding_once_def incAll_def Inc_def colliding_idle_eq)

lemma unregistered_eq:
  "snd (UnregisterHost (one_host Sum512 hf) ''a'') =
     \<lparr>replicaNum = 1, totalLoad = 0, hashFunc = hashFunc (New Sum512 1 hf),
      hosts = Map.empty, virt2host = [hashFunc (New Sum512 1 hf) ''a0'' \<mapsto> ''a''], ring = []\<rparr>"
  by (simp add: one_host_eq run_defs)

section \<open>The constructor and the plain lookup on an empty ring\<close>

text \<open>
  C10. \<^verbatim>\<open>New\<close> replaces a replica count that is not positive by 10 and a \<^verbatim>\<open>nil\<close> hash
  function by the default hash, whose value is the number that the first eight bytes of the
  SHA-512 digest of the key spell least significant byte first; the new instance has
  \<^verbatim>\<open>totalLoad\<close> 0, no host, an empty ring and an empty hash-to-host map.
\<close>

theorem New_defaults:
  "(r \<le> 0 \<longrightarrow> replicaNum (New Sum512 r hf) = 10) \<and>
   hashFunc (New Sum512 r None) = defaultHashFunc Sum512 \<and>
   unat (defaultHashFunc Sum512 key) = (\<Sum>i<8. unat (Sum512 key ! i) * 256 ^ i) \<and>
   totalLoad (New Sum512 r hf) = 0 \<and>
   hosts (New Sum512 r hf) = Map.empty \<and>
   virt2host (New Sum512 r hf) = Map.empty \<and>
   ring (New Sum512 r hf) = []"
  by (simp add: New_def defaultReplicaNum_def defaultHashFunc_def unat_LittleEndian_Uint64)

theorem New_defaults_witness:
  "(- 3 :: int) \<le> 0 \<and> replicaNum (New no_digest (- 3) None) = 10 \<and>
   hashFunc (New no_digest (- 3) None) = defaultHashFunc no_digest \<and>
   unat (defaultHashFunc no_digest ''k'') = 0"
  using New_defaults [of "- 3" no_digest None "''k''"]
  by (simp add: no_digest_def)

lemma searchKey_empty: "ring c = [] \<Longrightarrow> searchKey c key = 0"
  by (simp add: searchKey_def)

lemma GetHost_empty: "ring c = [] \<Longrightarrow> GetHost c key = Panic IndexOutOfRange"
  by (simp add: GetHost_def searchKey_empty)

text \<open>
  C5. On the instance \<^verbatim>\<open>New\<close> returns, whose ring is empty, \<^verbatim>\<open>GetHost\<close> does not return
  an error for any key: it indexes the ring at 0 and panics with an index out of range.
\<close>

theorem GetHost_empty_ring_panics:
  "GetHost (New Sum512 r hf) key = Panic IndexOutOfRange"
  by (rule GetHost_empty) (simp add: New_def)

section \<open>Unregistration\<close>

text \<open>
  The bisection of \<^verbatim>\<open>delHashIndex\<close> reads the ring at the midpoint of its two bounds,
  and what it returns is \<open>-1\<close> or an index between them that holds the value: started on
  \<open>0\<close> and \<open>len - 1\<close>, neither the reads nor the cut leave the ring.
\<close>

lemma delHashIndex_loop_range:
  "0 \<le> l \<Longrightarrow> delHashIndex_loop rg val l r = -1 \<or>
     (l \<le> delHashIndex_loop rg val l r \<and> delHashIndex_loop rg val l r \<le> r \<and>
      rg ! nat (delHashIndex_loop rg val l r) = val)"
proof (induction rg val l r rule: delHashIndex_loop.induct)
  case (1 rg val l r)
  show ?case
  proof (cases "l \<le> r")
    case False
    then show ?thesis by (subst delHashIndex_loop.simps) simp
  next
    case True
    define m where "m = (l + r) div 2"
    have m: "l \<le> m" "m \<le> r" using True by (simp_all add: m_def)
    consider (eq) "rg ! nat m = val" | (lt) "rg ! nat m \<noteq> val" "rg ! nat m < val"
      | (gt) "rg ! nat m \<noteq> val" "\<not> rg ! nat m < val" by blast
    then show ?thesis
    proof cases
      case eq
      then have "delHashIndex_loop rg val l r = m"
        using True by (subst delHashIndex_loop.simps) (simp add: m_def)
      with m eq show ?thesis by simp
    next
      case lt
      then have e: "delHashIndex_loop rg val l r = delHashIndex_loop rg val (m + 1) r"
        using True by (subst delHashIndex_loop.simps) (simp add: m_def)
      have "0 \<le> m + 1" using "1.prems" m by simp
      from "1.IH"(1) [OF True m_def lt(1) lt(2) this] show ?thesis
        unfolding e using m by auto
    next
      case gt
      then have e: "delHashIndex_loop rg val l r = delHashIndex_loop rg val l (m - 1)"
        using True by (subst delHashIndex_loop.simps) (simp add: m_def)
      from "1.IH"(2) [OF True m_def gt(1) gt(2) "1.prems"] show ?thesis
        unfolding e using m by auto
    qed
  qed
qed

lemma virt2host_delHashIndex [simp]: "virt2host (delHashIndex c val) = virt2host c"
  by (simp add: delHashIndex_def Let_def)

lemma virt2host_UnregisterHost_loop [simp]:
  "virt2host (UnregisterHost_loop c hostName i) = virt2host c"
  by (induction c hostName i rule: UnregisterHost_loop.induct)
    (subst UnregisterHost_loop.simps, simp)

text \<open>No call of \<^verbatim>\<open>UnregisterHost\<close> removes a key from \<^verbatim>\<open>virt2host\<close>.\<close>

lemma virt2host_UnregisterHost: "virt2host (snd (UnregisterHost c hostName)) = virt2host c"
  by (simp add: UnregisterHost_def)

text \<open>
  C1. Register host \<open>a\<close> on a new instance with one replica, whatever its hash function,
  then unregister it: the call succeeds and empties the ring and the host map, but the
  virtual node of \<open>a\<close> is still a key of the hash-to-host map and still names \<open>a\<close>.
\<close>

theorem UnregisterHost_leaves_virt2host:
  "fst (UnregisterHost (one_host Sum512 hf) ''a'') = None \<and>
   ring (snd (UnregisterHost (one_host Sum512 hf) ''a'')) = [] \<and>
   hosts (snd (UnregisterHost (one_host Sum512 hf) ''a'')) = Map.empty \<and>
   virt2host (snd (UnregisterHost (one_host Sum512 hf) ''a''))
     (hashFunc (one_host Sum512 hf) ''a0'') = Some ''a''"
  by (simp add: one_host_eq run_defs)

text \<open>
  What follows from the stale key: with the only host unregistered, \<^verbatim>\<open>GetHostCapacious\<close>
  passes its guard on \<^verbatim>\<open>len(c.virt2host)\<close> and indexes the empty ring.
\<close>

lemma GetHostCapacious_after_unregister:
  "GetHostCapacious (Suc n) (snd (UnregisterHost (one_host Sum512 hf) ''a'')) key
     = Some (Panic IndexOutOfRange, snd (UnregisterHost (one_host Sum512 hf) ''a''))"
  by (simp add: unregistered_eq GetHostCapacious_def len_map_def searchKey_def)

section \<open>Load accounting\<close>

text \<open>
  \<^verbatim>\<open>New\<close>, \<^verbatim>\<open>RegisterHost\<close>, \<^verbatim>\<open>Inc\<close>, \<^verbatim>\<open>Done\<close> and \<^verbatim>\<open>UpdateLoad\<close> keep
  \<^verbatim>\<open>totalLoad\<close> equal to the sum of the counters of the registered hosts.
\<close>

lemma counterSum_new:
  assumes "finite (dom m)" "m k = None"
  shows "counterSum (m(k \<mapsto> H)) = counterSum m + LoadBound H"
proof -
  have k: "k \<notin> dom m" using assms(2) by auto
  have "(\<Sum>name \<in> dom m. case (m(k \<mapsto> H)) name of None \<Rightarrow> 0 | Some H \<Rightarrow> LoadBound H)
          = (\<Sum>name \<in> dom m. case m name of None \<Rightarrow> 0 | Some H \<Rightarrow> LoadBound H)"
    using k by (intro sum.cong) auto
  then show ?thesis using assms(1) k by (simp add: counterSum_def)
qed

lemma counterSum_change:
  assumes "finite (dom m)" "m k = Some H"
  shows "counterSum (m(k \<mapsto> H')) = counterSum m - LoadBound H + LoadBound H'"
proof -
  let ?f = "\<lambda>m name. case m name of None \<Rightarrow> 0 | Some H \<Rightarrow> LoadBound H"
  have k: "k \<in> dom m" using assms(2) by auto
  then have d: "dom (m(k \<mapsto> H')) = dom m" by auto
  have "(\<Sum>name \<in> dom m - {k}. ?f (m(k \<mapsto> H')) name) = (\<Sum>name \<in> dom m - {k}. ?f m name)"
    by (intro sum.cong) auto
  moreover have "(\<Sum>name \<in> dom m. ?f (m(k \<mapsto> H')) name)
                   = ?f (m(k \<mapsto> H')) k + (\<Sum>name \<in> dom m - {k}. ?f (m(k \<mapsto> H')) name)"
    using assms(1) k by (rule sum.remove)
  moreover have "(\<Sum>name \<in> dom m. ?f m name) = ?f m k + (\<Sum>name \<in> dom m - {k}. ?f m name)"
    using assms(1) k by (rule sum.remove)
  ultimately show ?thesis using assms(2) by (simp add: counterSum_def insert_absorb [OF k])
qed

lemma RegisterHost_loop_fields [simp]:
  "hosts (RegisterHost_loop c hostName i) = hosts c"
  "totalLoad (RegisterHost_loop c hostName i) = totalLoad c"
  by (induction c hostName i rule: RegisterHost_loop.induct;
      subst RegisterHost_loop.simps, simp add: Let_def)+

lemma balanced_New: "balanced (New Sum512 r hf)"
  by (simp add: balanced_def counterSum_def New_def)

lemma balanced_RegisterHost: "balanced c \<Longrightarrow> balanced (snd (RegisterHost c hostName))"
  by (auto simp: balanced_def RegisterHost_def Let_def counterSum_new)

lemma balanced_Inc: "balanced c \<Longrightarrow> balanced (snd (Inc c hostName))"
  by (auto simp: balanced_def Inc_def counterSum_change split: option.split)

lemma balanced_Done: "balanced c \<Longrightarrow> balanced (Done c host)"
  by (auto simp: balanced_def Done_def counterSum_change split: option.split)

lemma balanced_UpdateLoad: "balanced c \<Longrightarrow> balanced (UpdateLoad c host load)"
  by (auto simp: balanced_def UpdateLoad_def counterSum_change split: option.split)

lemma balanced_one_host_Inc: "balanced (snd (Inc (one_host Sum512 hf) ''a''))"
  by (intro balanced_Inc) (simp add: one_host_def registerAll_def balanced_RegisterHost balanced_New)

text \<open>
  C7. On the instance \<^verbatim>\<open>New\<close> returns, in which no host is registered, \<^verbatim>\<open>Inc\<close> panics
  with a nil dereference for any host name; the state is as before.
\<close>

theorem Inc_unregistered_panics:
  "Inc (New Sum512 r hf) name = (Panic NilDereference, New Sum512 r hf)"
  by (simp add: Inc_def New_def)

text \<open>
  C2. Register host \<open>a\<close> on a new instance with one replica, call \<^verbatim>\<open>Inc\<close> on it, then unregister it: every call succeeds.
  Before the last call \<^verbatim>\<open>totalLoad\<close> is the sum of the counters; after it no host is
  left, so the counters of the registered hosts sum to 0, and \<^verbatim>\<open>totalLoad\<close> is 1.
\<close>

theorem UnregisterHost_keeps_totalLoad:
  "fst (Inc (one_host Sum512 hf) ''a'') = Return () \<and>
   balanced (snd (Inc (one_host Sum512 hf) ''a'')) \<and>
   fst (UnregisterHost (snd (Inc (one_host Sum512 hf) ''a'')) ''a'') = None \<and>
   dom (hosts (snd (UnregisterHost (snd (Inc (one_host Sum512 hf) ''a'')) ''a''))) = {} \<and>
   sumLoads (snd (UnregisterHost (snd (Inc (one_host Sum512 hf) ''a'')) ''a'')) = 0 \<and>
   sint (totalLoad (snd (UnregisterHost (snd (Inc (one_host Sum512 hf) ''a'')) ''a''))) = 1 \<and>
   \<not> balanced (snd (UnregisterHost (snd (Inc (one_host Sum512 hf) ''a'')) ''a''))"
  using balanced_one_host_Inc [of Sum512 hf]
  by (simp add: one_host_eq run_defs sumLoads_def balanced_def counterSum_def)

section \<open>The snapshots\<close>

lemma Hosts_state: "snd (Hosts c) = c"
  by (simp add: Hosts_def)

lemma GetLoads_state: "snd (GetLoads c) = c"
  by (simp add: GetLoads_def)

lemma int64_of_float64_of_int: "int64_of_float64 (of_int k) = word_of_int k"
  by (simp add: int64_of_float64_def)

lemma MaxLoad_exact:
  assumes T: "0 \<le> sint (totalLoad c)" "sint (totalLoad c) < 2 ^ 50"
    and n: "0 < len_map (hosts c)" "len_map (hosts c) < 2 ^ 50"
  shows "MaxLoad c =
           (let c1 = (if totalLoad c = 0 then c\<lparr>totalLoad := 1\<rparr> else c)
            in (Return (word_of_int (threshold (sint (totalLoad c1)) (len_map (hosts c)))), c1))"
proof -
  let ?c1 = "if totalLoad c = 0 then c\<lparr>totalLoad := 1\<rparr> else c"
  have h: "hosts ?c1 = hosts c" by simp
  have d: "0 \<le> sint (totalLoad ?c1)" "sint (totalLoad ?c1) \<le> 2 ^ 50"
    using T by simp_all
  note th = threshold_exact [OF d n]
  show ?thesis
    using n(1) unfolding MaxLoad_def Let_def h
    by (simp only: th int64_of_float64_of_int) simp
qed

text \<open>
  C9. With host \<open>a\<close> registered on a new instance and no load, \<^verbatim>\<open>MaxLoad\<close> returns 2 and leaves
  \<^verbatim>\<open>totalLoad\<close> at 1, where it was 0.
\<close>

theorem MaxLoad_writes_totalLoad:
  "totalLoad (one_host Sum512 hf) = 0 \<and>
   MaxLoad (one_host Sum512 hf) = (Return 2, (one_host Sum512 hf)\<lparr>totalLoad := 1\<rparr>)"
proof -
  let ?c = "one_host Sum512 hf"
  have "MaxLoad ?c
          = (Return (word_of_int (threshold (sint (totalLoad (?c\<lparr>totalLoad := 1\<rparr>)))
               (len_map (hosts ?c)))), ?c\<lparr>totalLoad := 1\<rparr>)"
    using MaxLoad_exact [of ?c] by (simp add: one_host_eq len_map_def)
  then show ?thesis
    by (simp add: one_host_eq len_map_def threshold_int)
qed

section \<open>The ring stays sorted\<close>

lemma sorted_cut_out: "sorted xs \<Longrightarrow> sorted (take i xs @ drop (Suc i) xs)"
proof -
  assume s: "sorted xs"
  then have "sorted (take i xs @ drop i xs)" by simp
  then have "\<forall>x \<in> set (take i xs). \<forall>y \<in> set (drop i xs). x \<le> y"
    by (simp only: sorted_append) blast
  moreover have "set (drop (Suc i) xs) \<subseteq> set (drop i xs)"
    by (rule set_drop_subset_set_drop) simp
  ultimately show ?thesis
    using s by (auto simp: sorted_append sorted_wrt_take sorted_wrt_drop)
qed

lemma delHashIndex_fields [simp]:
  "hosts (delHashIndex c val) = hosts c"
  "totalLoad (delHashIndex c val) = totalLoad c"
  "replicaNum (delHashIndex c val) = replicaNum c"
  "hashFunc (delHashIndex c val) = hashFunc c"
  by (simp_all add: delHashIndex_def Let_def)

lemma sorted_delHashIndex: "sorted (ring c) \<Longrightarrow> sorted (ring (delHashIndex c val))"
  by (simp add: delHashIndex_def Let_def sorted_cut_out)

lemma set_ring_delHashIndex: "set (ring (delHashIndex c val)) \<subseteq> set (ring c)"
  by (auto simp: delHashIndex_def Let_def dest: in_set_takeD in_set_dropD)

lemma sorted_UnregisterHost_loop:
  "sorted (ring c) \<Longrightarrow> sorted (ring (UnregisterHost_loop c hostName i))"
proof (induction c hostName i rule: UnregisterHost_loop.induct)
  case (1 c hostName i)
  show ?case
  proof (cases "int i < replicaNum c")
    case True
    with 1 show ?thesis
      by (subst UnregisterHost_loop.simps) (simp add: sorted_delHashIndex)
  next
    case False
    with 1 show ?thesis by (subst UnregisterHost_loop.simps) simp
  qed
qed

lemma set_ring_UnregisterHost_loop:
  "set (ring (UnregisterHost_loop c hostName i)) \<subseteq> set (ring c)"
proof (induction c hostName i rule: UnregisterHost_loop.induct)
  case (1 c hostName i)
  show ?case
  proof (cases "int i < replicaNum c")
    case True
    with 1 have "set (ring (UnregisterHost_loop c hostName i))
                   \<subseteq> set (ring (delHashIndex c (hashFunc c (Sprintf_hostReplicaFormat hostName i))))"
      by (subst UnregisterHost_loop.simps) simp
    then show ?thesis using set_ring_delHashIndex by blast
  next
    case False
    then show ?thesis by (subst UnregisterHost_loop.simps) simp
  qed
qed

lemma ring_in_map_RegisterHost_loop:
  "set (ring c) \<subseteq> dom (virt2host c) \<Longrightarrow>
   set (ring (RegisterHost_loop c hostName i)) \<subseteq> dom (virt2host (RegisterHost_loop c hostName i))"
proof (induction c hostName i rule: RegisterHost_loop.induct)
  case (1 c hostName i)
  show ?case
  proof (cases "int i < replicaNum c")
    case True
    define v where "v = hashFunc c (Sprintf_hostReplicaFormat hostName i)"
    define c' where "c' = c\<lparr>virt2host := (virt2host c)(v \<mapsto> hostName), ring := ring c @ [v]\<rparr>"
    have step: "RegisterHost_loop c hostName i = RegisterHost_loop c' hostName (i + 1)"
      using True by (subst RegisterHost_loop.simps) (simp add: c'_def v_def Let_def)
    have sub: "set (ring c') \<subseteq> dom (virt2host c')"
      using "1.prems" by (auto simp: c'_def)
    note ih = "1.IH" [OF True v_def, folded c'_def]
    from ih [OF sub]
    have "set (ring (RegisterHost_loop c' hostName (i + 1)))
            \<subseteq> dom (virt2host (RegisterHost_loop c' hostName (i + 1)))" .
    then show ?thesis by (simp only: step)
  next
    case False
    with 1 show ?thesis by (subst (1 2) RegisterHost_loop.simps) simp
  qed
qed

text \<open>The walk only ever resets a negative \<^verbatim>\<open>totalLoad\<close>.\<close>

lemma snd_checkLoadCapacity: "snd (checkLoadCapacity c host) = clampTotalLoad c"
  by (simp add: checkLoadCapacity_def clampTotalLoad_def Let_def split: option.split)

lemma checkLoadCapacity_clamp:
  "checkLoadCapacity (clampTotalLoad c) host = checkLoadCapacity c host"
  by (simp add: checkLoadCapacity_def clampTotalLoad_def Let_def)

lemma walk_state: "walk n c i = Some (res, c1) \<Longrightarrow> c1 = c \<or> c1 = clampTotalLoad c"
proof (induction n arbitrary: c i)
  case 0
  then show ?case by simp
next
  case (Suc n)
  show ?case
  proof (cases "i < length (ring c)")
    case False
    with Suc.prems show ?thesis by simp
  next
    case True
    obtain out c' where chk: "checkLoadCapacity c (lookup_string (virt2host c) (ring c ! i)) = (out, c')"
      by (cases "checkLoadCapacity c (lookup_string (virt2host c) (ring c ! i))")
    then have c': "c' = clampTotalLoad c" using snd_checkLoadCapacity [of c] by (metis snd_conv)
    show ?thesis
    proof (cases out)
      case (Panic p)
      with Suc.prems True chk c' show ?thesis by (simp add: Let_def)
    next
      case (Return r)
      obtain loadChecked err where r: "r = (loadChecked, err)" by (cases r)
      show ?thesis
      proof (cases "err = None \<and> \<not> loadChecked")
        case False
        with Suc.prems True chk c' Return r show ?thesis
          by (auto simp: Let_def split: if_splits)
      next
        case True2: True
        with Suc.prems True chk Return r
        have "walk n c' (if len_map (virt2host c') \<le> i + 1 then 0 else i + 1) = Some (res, c1)"
          by (simp add: Let_def)
        from Suc.IH [OF this] show ?thesis by (auto simp: c')
      qed
    qed
  qed
qed

lemma GetHostCapacious_state:
  "GetHostCapacious n c key = Some (res, c1) \<Longrightarrow> c1 = c \<or> c1 = clampTotalLoad c"
  by (auto simp: GetHostCapacious_def Let_def split: if_splits dest: walk_state)

lemma reachable_ring:
  "reachable c \<Longrightarrow> sorted (ring c) \<and> set (ring c) \<subseteq> dom (virt2host c)"
proof (induction rule: reachable.induct)
  case (reachable_New Sum512 r hf)
  show ?case by (simp add: New_def)
next
  case (reachable_RegisterHost c hostName)
  let ?c1 = "c\<lparr>hosts := (hosts c)(hostName \<mapsto> \<lparr>Name = hostName, LoadBound = 0\<rparr>)\<rparr>"
  have "set (ring ?c1) \<subseteq> dom (virt2host ?c1)" using reachable_RegisterHost.IH by simp
  from ring_in_map_RegisterHost_loop [OF this, of hostName 0]
  show ?case using reachable_RegisterHost.IH by (simp add: RegisterHost_def Let_def)
next
  case (reachable_UnregisterHost c hostName)
  let ?c1 = "c\<lparr>hosts := (hosts c)(hostName := None)\<rparr>"
  have "sorted (ring (UnregisterHost_loop ?c1 hostName 0))"
    using reachable_UnregisterHost.IH by (intro sorted_UnregisterHost_loop) simp
  moreover have "set (ring (UnregisterHost_loop ?c1 hostName 0)) \<subseteq> set (ring c)"
    using set_ring_UnregisterHost_loop [of ?c1 hostName 0] by simp
  ultimately show ?case
    using reachable_UnregisterHost.IH by (auto simp: UnregisterHost_def Let_def)
next
  case (reachable_UpdateLoad c host load)
  then show ?case by (simp add: UpdateLoad_def split: option.split)
next
  case (reachable_Inc c hostName)
  then show ?case by (simp add: Inc_def split: option.split)
next
  case (reachable_Done c host)
  then show ?case by (simp add: Done_def split: option.split)
next
  case (reachable_MaxLoad c)
  then show ?case by (simp add: MaxLoad_def Let_def)
next
  case (reachable_GetHostCapacious c n key res c1)
  from GetHostCapacious_state [OF reachable_GetHostCapacious.hyps(2)]
  show ?case using reachable_GetHostCapacious.IH by auto
qed

section \<open>Lookup on the ring\<close>

text \<open>\<^verbatim>\<open>sort.Search\<close> evaluates its predicate between the two bounds only.\<close>

lemma Search_loop_cong:
  "(\<And>h. i \<le> h \<Longrightarrow> h < j \<Longrightarrow> f h = g h) \<Longrightarrow> Search_loop f i j = Search_loop g i j"
proof (induction f i j rule: Search_loop.induct)
  case (1 f i j)
  show ?case
  proof (cases "i < j")
    case False
    then show ?thesis by (simp add: Search_loop.simps [of _ i j])
  next
    case True
    define h where "h = (i + j) div 2"
    have h: "i \<le> h" "h < j" using True by (simp_all add: h_def)
    then have fg: "f h = g h" using "1.prems" by simp
    show ?thesis
    proof (cases "f h")
      case True2: True
      have "Search_loop f i h = Search_loop g i h"
        using "1.IH"(2) [OF True h_def] True2 h "1.prems" by simp
      then show ?thesis
        using True True2 fg by (simp add: Search_loop.simps [of _ i j] h_def [symmetric])
    next
      case False
      have "Search_loop f (h + 1) j = Search_loop g (h + 1) j"
        using "1.IH"(1) [OF True h_def] False h "1.prems" by simp
      then show ?thesis
        using True False fg by (simp add: Search_loop.simps [of _ i j] h_def [symmetric])
    qed
  qed
qed

text \<open>On a predicate that is monotone below \<open>n\<close> the bisection finds the least index.\<close>

lemma Search_loop_least:
  assumes mono: "\<And>a b. a \<le> b \<Longrightarrow> b < n \<Longrightarrow> f a \<Longrightarrow> f b"
    and "i \<le> j" "j \<le> n"
    and "\<forall>k<i. \<not> f k" "\<forall>k. j \<le> k \<and> k < n \<longrightarrow> f k"
  shows "i \<le> Search_loop f i j \<and> Search_loop f i j \<le> j \<and>
         (\<forall>k < Search_loop f i j. \<not> f k) \<and>
         (\<forall>k. Search_loop f i j \<le> k \<and> k < n \<longrightarrow> f k)"
  using assms
proof (induction f i j rule: Search_loop.induct)
  case (1 f i j)
  note mono' = "1.prems"(1)
  show ?case
  proof (cases "i < j")
    case False
    with "1.prems" have "i = j" by simp
    with "1.prems" show ?thesis by (simp add: Search_loop.simps [of _ j j])
  next
    case True
    define h where "h = (i + j) div 2"
    have h: "i \<le> h" "h < j" using True by (simp_all add: h_def)
    show ?thesis
    proof (cases "f h")
      case False
      have eq: "Search_loop f i j = Search_loop f (h + 1) j"
        using True False by (simp add: Search_loop.simps [of _ i j] h_def [symmetric])
      have below: "\<forall>k < h + 1. \<not> f k"
      proof (intro allI impI)
        fix k assume "k < h + 1"
        then have "k \<le> h" by simp
        moreover have "h < n" using h "1.prems" by simp
        ultimately show "\<not> f k" using mono' [of k h] False by blast
      qed
      have "h + 1 \<le> Search_loop f (h + 1) j \<and> Search_loop f (h + 1) j \<le> j \<and>
            (\<forall>k < Search_loop f (h + 1) j. \<not> f k) \<and>
            (\<forall>k. Search_loop f (h + 1) j \<le> k \<and> k < n \<longrightarrow> f k)"
        using h "1.prems"(3,5) below
        by (intro "1.IH"(1) [OF True h_def _ mono']) (simp_all add: False)
      then show ?thesis using h unfolding eq by auto
    next
      case True2: True
      have eq: "Search_loop f i j = Search_loop f i h"
        using True True2 by (simp add: Search_loop.simps [of _ i j] h_def [symmetric])
      have above: "\<forall>k. h \<le> k \<and> k < n \<longrightarrow> f k"
        using mono' [of h] True2 by blast
      have "i \<le> Search_loop f i h \<and> Search_loop f i h \<le> h \<and>
            (\<forall>k < Search_loop f i h. \<not> f k) \<and>
            (\<forall>k. Search_loop f i h \<le> k \<and> k < n \<longrightarrow> f k)"
        using h "1.prems"(3,4) above
        by (intro "1.IH"(2) [OF True h_def _ mono']) (simp_all add: True2)
      then show ?thesis using h unfolding eq by auto
    qed
  qed
qed

lemma Search_least:
  assumes mono: "\<And>a b. a \<le> b \<Longrightarrow> b < n \<Longrightarrow> f a \<Longrightarrow> f b"
  shows "Search n f \<le> n \<and> (\<forall>k < Search n f. \<not> f k) \<and>
         (\<forall>k. Search n f \<le> k \<and> k < n \<longrightarrow> f k)"
proof -
  have "0 \<le> Search_loop f 0 n \<and> Search_loop f 0 n \<le> n \<and>
        (\<forall>k < Search_loop f 0 n. \<not> f k) \<and>
        (\<forall>k. Search_loop f 0 n \<le> k \<and> k < n \<longrightarrow> f k)"
  proof (rule Search_loop_least [of n f 0 n])
    show "\<And>a b. a \<le> b \<Longrightarrow> b < n \<Longrightarrow> f a \<Longrightarrow> f b" by (rule mono)
    show "0 \<le> n" by simp
    show "n \<le> n" by simp
    show "\<forall>k<0. \<not> f k" by simp
    show "\<forall>k. n \<le> k \<and> k < n \<longrightarrow> f k" by (metis not_less)
  qed
  then show ?thesis unfolding Search_def by blast
qed

lemma searchKey_successor:
  assumes ne: "ring c \<noteq> []" and s: "sorted (ring c)"
  shows "searchKey c key < length (ring c) \<and>
         (if \<exists>x \<in> set (ring c). key \<le> x
          then key \<le> ring c ! searchKey c key \<and> (\<forall>j < searchKey c key. ring c ! j < key)
          else searchKey c key = 0)"
proof -
  let ?n = "length (ring c)"
  define f where "f = (\<lambda>i. key \<le> ring c ! i)"
  define r where "r = Search ?n f"
  have f: "f i \<longleftrightarrow> key \<le> ring c ! i" for i by (simp only: f_def)
  have mono: "\<And>a b. a \<le> b \<Longrightarrow> b < ?n \<Longrightarrow> f a \<Longrightarrow> f b"
  proof -
    fix a b assume ab: "a \<le> b" "b < ?n" and ka: "f a"
    from s ab have "ring c ! a \<le> ring c ! b" by (rule sorted_nth_mono)
    with ka show "f b" unfolding f by (rule order_trans)
  qed
  have "Search ?n f \<le> ?n \<and> (\<forall>k < Search ?n f. \<not> f k) \<and>
        (\<forall>k. Search ?n f \<le> k \<and> k < ?n \<longrightarrow> f k)"
  proof (rule Search_least)
    fix a b assume "a \<le> b" "b < ?n" "f a"
    then show "f b" by (rule mono)
  qed
  then have r: "r \<le> ?n" "\<forall>k < r. \<not> f k" "\<forall>k. r \<le> k \<and> k < ?n \<longrightarrow> f k"
    unfolding r_def by blast+
  have n: "0 < ?n" using ne by simp
  have sk: "searchKey c key = (if ?n \<le> r then 0 else r)"
    unfolding searchKey_def r_def f_def Let_def ..
  show ?thesis
  proof (cases "r < ?n")
    case True
    then have skr: "searchKey c key = r" unfolding sk by simp
    have "f r" using r(3) True by blast
    then have ge: "key \<le> ring c ! r" unfolding f .
    moreover have "ring c ! r \<in> set (ring c)" using True by (rule nth_mem)
    ultimately have ex: "\<exists>x \<in> set (ring c). key \<le> x" by blast
    have "\<forall>j < r. ring c ! j < key"
    proof (intro allI impI)
      fix j assume "j < r"
      then have "\<not> f j" using r(2) by blast
      then show "ring c ! j < key" unfolding f by (rule iffD1 [OF not_le])
    qed
    with ge ex True show ?thesis unfolding skr by (simp only: if_True)
  next
    case False
    then have rn: "r = ?n" using r(1) by simp
    then have sk0: "searchKey c key = 0" unfolding sk by simp
    have "\<not> (\<exists>x \<in> set (ring c). key \<le> x)"
    proof
      assume "\<exists>x \<in> set (ring c). key \<le> x"
      then obtain x where x: "x \<in> set (ring c)" "key \<le> x" by blast
      then obtain i where i: "i < ?n" "ring c ! i = x" by (meson in_set_conv_nth)
      with r(2) rn have "\<not> f i" by blast
      with i x show False unfolding f by blast
    qed
    then show ?thesis using n unfolding sk0 by (simp only: if_False)
  qed
qed

lemma GetHost_successor_sorted:
  assumes ne: "ring c \<noteq> []" and s: "sorted (ring c)" and m: "set (ring c) \<subseteq> dom (virt2host c)"
  shows "\<exists>idx host. idx < length (ring c) \<and> virt2host c (ring c ! idx) = Some host \<and>
           GetHost c key = Return (host, None) \<and>
           (if \<exists>x \<in> set (ring c). hashFunc c key \<le> x
            then hashFunc c key \<le> ring c ! idx \<and> (\<forall>j < idx. ring c ! j < hashFunc c key)
            else idx = 0)"
proof -
  let ?idx = "searchKey c (hashFunc c key)"
  note sk = searchKey_successor [OF ne s, of "hashFunc c key"]
  then have lt: "?idx < length (ring c)" by simp
  then have "ring c ! ?idx \<in> dom (virt2host c)" using m by (meson nth_mem subsetD)
  then obtain host where host: "virt2host c (ring c ! ?idx) = Some host" by auto
  have "GetHost c key = Return (host, None)"
    using lt host by (simp add: GetHost_def Let_def lookup_string_def)
  with sk host show ?thesis by blast
qed

text \<open>
  C8. In every reachable state with a non-empty ring and for every key, \<^verbatim>\<open>GetHost\<close>
  returns, without error, the host that the hash-to-host map gives for the ring entry at
  an index \<open>idx\<close>: if some ring entry is at least the hash of the key, the entry at \<open>idx\<close>
  is at least that hash and every entry before it is below it; otherwise \<open>idx\<close> is 0. The
  result is a function of the state and the key, and the call changes no state.
\<close>

theorem GetHost_successor:
  assumes "reachable c" and "ring c \<noteq> []"
  shows "\<exists>idx host. idx < length (ring c) \<and> virt2host c (ring c ! idx) = Some host \<and>
           GetHost c key = Return (host, None) \<and>
           (if \<exists>x \<in> set (ring c). hashFunc c key \<le> x
            then hashFunc c key \<le> ring c ! idx \<and> (\<forall>j < idx. ring c ! j < hashFunc c key)
            else idx = 0)"
  using reachable_ring [OF assms(1)] assms(2) by (intro GetHost_successor_sorted) simp_all

theorem GetHost_successor_witness:
  "reachable two_by_two \<and> ring two_by_two \<noteq> [] \<and>
   GetHost two_by_two ''a2'' = Return (''b'', None)"
proof -
  have r: "reachable two_by_two"
    by (simp add: two_by_two_def registerAll_def reachable.intros)
  have ring: "ring two_by_two = [3055, 3056, 3086, 3087]"
    and key: "hashFunc two_by_two ''a2'' = 3057"
    by (simp_all add: two_by_two_eq poly_hash_def)
  have ne: "ring two_by_two \<noteq> []" by (simp add: ring)
  have ex: "\<exists>x \<in> set (ring two_by_two). hashFunc two_by_two ''a2'' \<le> x"
    by (simp add: ring key)
  from GetHost_successor [OF r ne, of "''a2''"]
  obtain idx host where idx: "idx < length (ring two_by_two)"
    and host: "virt2host two_by_two (ring two_by_two ! idx) = Some host"
    and res: "GetHost two_by_two ''a2'' = Return (host, None)"
    and ge: "hashFunc two_by_two ''a2'' \<le> ring two_by_two ! idx"
    and below: "\<forall>j < idx. ring two_by_two ! j < hashFunc two_by_two ''a2''"
    using ex by (simp only: if_True) blast
  from idx have "idx = 0 \<or> idx = 1 \<or> idx = 2 \<or> idx = 3" by (simp add: ring) arith
  then have "idx = 2"
  proof (elim disjE)
    assume "idx = 0" with ge show ?thesis by (simp add: ring key)
  next
    assume "idx = 1" with ge show ?thesis by (simp add: ring key)
  next
    assume "idx = 2" then show ?thesis .
  next
    assume "idx = 3"
    with below have "ring two_by_two ! 2 < hashFunc two_by_two ''a2''" by simp
    then show ?thesis by (simp add: ring key)
  qed
  with host have "host = ''b''" by (simp add: two_by_two_eq)
  with res r ne show ?thesis by simp
qed

section \<open>The capacity check\<close>

lemma len_map_pos: "finite (dom m) \<Longrightarrow> m k = Some v \<Longrightarrow> 0 < len_map m"
  unfolding len_map_def by (rule card_gt_0_iff [THEN iffD2]) auto

lemma checkLoadCapacity_registered:
  assumes r: "exact_range c" and h: "hosts c host = Some H"
  shows "checkLoadCapacity c host =
           (Return (sint (LoadBound H) + 1
                      \<le> capacity (max 0 (sint (totalLoad c))) (len_map (hosts c)), None),
            clampTotalLoad c)"
proof -
  have "finite (dom (hosts c))" using r by (simp add: exact_range_def)
  then have "0 < len_map (hosts c)" using h by (rule len_map_pos)
  from checkLoadCapacity_exact [OF r this, of host] show ?thesis by (simp add: h)
qed

lemma spec_capacity_f64_6_4: "spec_capacity_f64 6 4 = 3"
proof -
  have a: "f64_round (7 / 4) = 7 / 4"
    by (rule f64_round_dyadic [where k = 7 and m = 2 and p = 1]) simp_all
  have b: "f64_round (35 / 16) = 35 / 16"
    by (rule f64_round_dyadic [where k = 35 and m = 4 and p = 2]) simp_all
  show ?thesis
    by (simp add: spec_capacity_f64_def one_plus_LoadBoundFactor f64_mul_def a b ceiling_eq_iff)
qed

text \<open>
  C4, as stated, fails. Four hosts, \<^verbatim>\<open>totalLoad\<close> 6, host \<open>a\<close> with two requests in
  flight: \<open>7 / 4\<close> divided in \<^verbatim>\<open>float64\<close> gives the threshold 3, which admits \<open>a\<close>;
  \<^verbatim>\<open>checkLoadCapacity\<close> rejects it.
\<close>

theorem checkLoadCapacity_float_division_counterexample:
  "hosts four_hosts ''a'' = Some \<lparr>Name = ''a'', LoadBound = 2\<rparr> \<and>
   sint (totalLoad four_hosts) = 6 \<and> len_map (hosts four_hosts) = 4 \<and>
   sint (2 :: int64) + 1 \<le> spec_capacity_f64 6 4 \<and>
   checkLoadCapacity four_hosts ''a'' = (Return (False, None), four_hosts)"
proof -
  have h: "hosts four_hosts ''a'' = Some \<lparr>Name = ''a'', LoadBound = 2\<rparr>"
    and T: "sint (totalLoad four_hosts) = 6" and n: "len_map (hosts four_hosts) = 4"
    by (simp_all add: four_hosts_eq len_map_def)
  have "clampTotalLoad four_hosts = four_hosts"
    by (rule clampTotalLoad_id) (simp add: T)
  with checkLoadCapacity_registered [OF exact_range_four_hosts h]
  have "checkLoadCapacity four_hosts ''a'' = (Return (False, None), four_hosts)"
    by (simp add: T n capacity_int)
  with h T n show ?thesis by (simp add: spec_capacity_f64_6_4)
qed

text \<open>
  C4, amended. While the counters and the host count are below \<open>2^50\<close>,
  \<^verbatim>\<open>checkLoadCapacity\<close> resets a negative \<^verbatim>\<open>totalLoad\<close> to 0 and accepts a registered
  host \<open>H\<close> exactly when \<open>H.LoadBound + 1 \<le> cap\<close>, where \<open>cap\<close> is the ceiling of \<open>1.25\<close>
  times the integer quotient of \<open>totalLoad + 1\<close> by the host count, with 1 in place of a
  quotient 0.
\<close>

theorem checkLoadCapacity_accepts_iff:
  assumes "exact_range c" and "hosts c host = Some H"
  shows "checkLoadCapacity c host =
           (Return (sint (LoadBound H) + 1
                      \<le> capacity (max 0 (sint (totalLoad c))) (len_map (hosts c)), None),
            clampTotalLoad c)"
  using assms by (rule checkLoadCapacity_registered)

theorem checkLoadCapacity_accepts_iff_witness:
  "exact_range three_hosts \<and>
   hosts three_hosts ''b'' = Some \<lparr>Name = ''b'', LoadBound = 0\<rparr> \<and>
   capacity (max 0 (sint (totalLoad three_hosts))) (len_map (hosts three_hosts)) = 2 \<and>
   checkLoadCapacity three_hosts ''b'' = (Return (True, None), three_hosts)"
proof -
  have h: "hosts three_hosts ''b'' = Some \<lparr>Name = ''b'', LoadBound = 0\<rparr>"
    by (simp add: three_hosts_eq)
  have cap: "capacity (max 0 (sint (totalLoad three_hosts))) (len_map (hosts three_hosts)) = 2"
    by (simp add: three_hosts_eq len_map_def capacity_int)
  have "clampTotalLoad three_hosts = three_hosts"
    by (rule clampTotalLoad_id) (simp add: three_hosts_eq)
  with checkLoadCapacity_accepts_iff [OF exact_range_three_hosts h] cap
  have "checkLoadCapacity three_hosts ''b'' = (Return (True, None), three_hosts)"
    by simp
  with exact_range_three_hosts h cap show ?thesis by simp
qed

section \<open>Assignments stay within the capacity\<close>

lemma checkLoadCapacity_Return_pos:
  "checkLoadCapacity c host = (Return r, c1) \<Longrightarrow> 0 < len_map (hosts c)"
  by (auto simp: checkLoadCapacity_def clampTotalLoad_def Let_def split: if_splits)

text \<open>A host the walk returns is one that \<^verbatim>\<open>checkLoadCapacity\<close> has accepted.\<close>

lemma walk_accepted:
  "walk n c i = Some (Return (host, None), c1) \<Longrightarrow>
   c1 = clampTotalLoad c \<and> checkLoadCapacity c host = (Return (True, None), c1)"
proof (induction n arbitrary: c i)
  case 0
  then show ?case by simp
next
  case (Suc n)
  show ?case
  proof (cases "i < length (ring c)")
    case False
    with Suc.prems show ?thesis by simp
  next
    case True
    define h where "h = lookup_string (virt2host c) (ring c ! i)"
    obtain out c' where chk: "checkLoadCapacity c h = (out, c')"
      by (cases "checkLoadCapacity c h")
    then have c': "c' = clampTotalLoad c" using snd_checkLoadCapacity [of c h] by simp
    show ?thesis
    proof (cases out)
      case (Panic p)
      with Suc.prems True chk show ?thesis by (simp add: Let_def h_def [symmetric])
    next
      case (Return r)
      obtain loadChecked err where r: "r = (loadChecked, err)" by (cases r)
      show ?thesis
      proof (cases "err = None")
        case False
        with Suc.prems True chk Return r show ?thesis
          by (simp add: Let_def h_def [symmetric])
      next
        case err: True
        show ?thesis
        proof (cases loadChecked)
          case True2: True
          with Suc.prems True chk Return r err have "host = h" "c1 = c'"
            by (simp_all add: Let_def h_def [symmetric])
          with chk Return r err True2 c' show ?thesis by simp
        next
          case False
          with Suc.prems True chk Return r err
          have "walk n c' (if len_map (virt2host c') \<le> i + 1 then 0 else i + 1)
                  = Some (Return (host, None), c1)"
            by (simp add: Let_def h_def [symmetric])
          from Suc.IH [OF this] show ?thesis
            by (simp add: c' checkLoadCapacity_clamp)
        qed
      qed
    qed
  qed
qed

lemma GetHostCapacious_accepted:
  assumes "GetHostCapacious n c key = Some (Return (host, None), c1)"
  shows "c1 = clampTotalLoad c \<and> checkLoadCapacity c host = (Return (True, None), c1)"
proof -
  from assms have "walk n c (searchKey c (hashFunc c key)) = Some (Return (host, None), c1)"
    by (simp add: GetHostCapacious_def Let_def split: if_splits)
  then show ?thesis by (rule walk_accepted)
qed

lemma assign_unfold:
  assumes "assign n c key = Some (host, c2)"
  shows "\<exists>c1. GetHostCapacious n c key = Some (Return (host, None), c1) \<and>
              Inc c1 host = (Return (), c2)"
proof -
  from assms obtain h1 c1 where g: "GetHostCapacious n c key = Some (Return (h1, None), c1)"
    by (auto simp: assign_def split: option.splits outcome.splits prod.splits)
  with assms obtain u where "Inc c1 h1 = (Return u, c2)" "h1 = host"
    by (auto simp: assign_def split: outcome.splits prod.splits)
  with g show ?thesis by simp
qed

lemma sint_succ_small:
  assumes "\<bar>sint (w :: int64)\<bar> < 2 ^ 50"
  shows "sint (w + 1) = sint w + 1"
  using assms by (intro sint_plus_one_64) simp

lemma assign_load:
  assumes r: "exact_range c" and a: "assign n c key = Some (host, c2)"
  shows "hosts c host \<noteq> None \<and>
         loadOf c2 host = loadOf c host + 1 \<and>
         loadOf c2 host \<le> capacity (max 0 (sint (totalLoad c))) (len_map (hosts c)) \<and>
         (\<forall>other. other \<noteq> host \<longrightarrow> hosts c2 other = hosts c other)"
proof -
  from assign_unfold [OF a] obtain c1
    where g: "GetHostCapacious n c key = Some (Return (host, None), c1)"
      and i: "Inc c1 host = (Return (), c2)" by blast
  from GetHostCapacious_accepted [OF g]
  have c1: "c1 = clampTotalLoad c" and chk: "checkLoadCapacity c host = (Return (True, None), c1)"
    by simp_all
  from checkLoadCapacity_Return_pos [OF chk] have n: "0 < len_map (hosts c)" .
  from checkLoadCapacity_exact [OF r n, of host] chk
  obtain H where H: "hosts c host = Some H"
    and le: "sint (LoadBound H) + 1 \<le> capacity (max 0 (sint (totalLoad c))) (len_map (hosts c))"
    by (cases "hosts c host") simp_all
  have small: "\<bar>sint (LoadBound H)\<bar> < 2 ^ 50" using r H by (simp add: exact_range_def)
  from i H have c2: "hosts c2 = (hosts c)(host \<mapsto> H\<lparr>LoadBound := LoadBound H + 1\<rparr>)"
    by (auto simp: Inc_def c1)
  have "loadOf c2 host = sint (LoadBound H) + 1"
    by (simp add: loadOf_def c2 sint_succ_small [OF small])
  with H le c2 show ?thesis by (simp add: loadOf_def)
qed

text \<open>One iteration of the walk, in closed form.\<close>

lemma walk_step:
  assumes r: "exact_range c" and i: "i < length (ring c)"
    and v: "virt2host c (ring c ! i) = Some h" and h: "hosts c h = Some H"
  shows "walk (Suc n) c i =
           (if sint (LoadBound H) + 1 \<le> capacity (max 0 (sint (totalLoad c))) (len_map (hosts c))
            then Some (Return (h, None), clampTotalLoad c)
            else walk n (clampTotalLoad c) (if len_map (virt2host c) \<le> i + 1 then 0 else i + 1))"
proof -
  have l: "lookup_string (virt2host c) (ring c ! i) = h" by (simp add: lookup_string_def v)
  show ?thesis
    using i by (simp add: l checkLoadCapacity_registered [OF r h])
qed

lemma assign_four_idle: "assign 4 four_idle ''a0'' = Some (''a'', one_assigned)"
proof -
  have k: "searchKey four_idle (hashFunc four_idle ''a0'') = 0"
    by (simp add: four_idle_eq poly_hash_def searchKey_def Search_def Search_loop.simps)
  have w: "walk (Suc (Suc (Suc (Suc 0)))) four_idle 0 = Some (Return (''a'', None), four_idle)"
    by (subst walk_step [OF exact_range_four_idle,
          where h = "''a''" and H = "\<lparr>Name = ''a'', LoadBound = 0\<rparr>"])
      (simp_all add: four_idle_eq len_map_def capacity_int clampTotalLoad_def)
  have v: "len_map (virt2host four_idle) \<noteq> 0"
    by (simp add: four_idle_eq len_map_def)
  have four: "(4::nat) = Suc (Suc (Suc (Suc 0)))" by simp
  have g: "GetHostCapacious 4 four_idle ''a0'' = Some (Return (''a'', None), four_idle)"
    using v by (simp only: GetHostCapacious_def Let_def k four w) simp
  have i: "Inc four_idle ''a'' = (Return (), one_assigned)"
    by (simp add: Inc_def four_idle_eq one_assigned_eq fun_upd_twist)
  show ?thesis by (simp add: assign_def g i)
qed

lemma assign_one_assigned: "assign 4 one_assigned ''a0'' = Some (''a'', two_assigned)"
proof -
  have k: "searchKey one_assigned (hashFunc one_assigned ''a0'') = 0"
    by (simp add: one_assigned_eq poly_hash_def searchKey_def Search_def Search_loop.simps)
  have w: "walk (Suc (Suc (Suc (Suc 0)))) one_assigned 0
             = Some (Return (''a'', None), one_assigned)"
    by (subst walk_step [OF exact_range_one_assigned,
          where h = "''a''" and H = "\<lparr>Name = ''a'', LoadBound = 1\<rparr>"])
      (simp_all add: one_assigned_eq len_map_def capacity_int clampTotalLoad_def)
  have v: "len_map (virt2host one_assigned) \<noteq> 0"
    by (simp add: one_assigned_eq len_map_def)
  have four: "(4::nat) = Suc (Suc (Suc (Suc 0)))" by simp
  have g: "GetHostCapacious 4 one_assigned ''a0'' = Some (Return (''a'', None), one_assigned)"
    using v by (simp only: GetHostCapacious_def Let_def k four w) simp
  have i: "Inc one_assigned ''a'' = (Return (), two_assigned)"
    by (simp add: Inc_def one_assigned_eq two_assigned_eq fun_upd_twist)
  show ?thesis by (simp add: assign_def g i)
qed

text \<open>
  C3, as stated, fails. Four hosts without load, and two requests for the key \<open>a0\<close>, each
  followed by \<^verbatim>\<open>Inc\<close>: both go to host \<open>a\<close>, which then holds 2 requests. At the
  second assignment \<^verbatim>\<open>totalLoad\<close> is 1 and the real-number threshold is
  \<open>\<lceil>(2 / 4) * 1.25\<rceil> = 1\<close>; taken from the \<^verbatim>\<open>totalLoad\<close> 2 that \<^verbatim>\<open>Inc\<close> leaves, it is
  \<open>\<lceil>(3 / 4) * 1.25\<rceil> = 1\<close> as well.
\<close>

theorem assigned_load_exceeds_real_capacity_counterexample:
  "assign 4 four_idle ''a0'' = Some (''a'', one_assigned) \<and>
   assign 4 one_assigned ''a0'' = Some (''a'', two_assigned) \<and>
   spec_capacity (sint (totalLoad one_assigned)) (len_map (hosts one_assigned)) = 1 \<and>
   spec_capacity (sint (totalLoad two_assigned)) (len_map (hosts two_assigned)) = 1 \<and>
   loadOf two_assigned ''a'' = 2"
proof -
  have "sint (totalLoad one_assigned) = 1" "len_map (hosts one_assigned) = 4"
    "sint (totalLoad two_assigned) = 2" "len_map (hosts two_assigned) = 4"
    by (simp_all add: one_assigned_eq two_assigned_eq len_map_def)
  moreover have "spec_capacity 1 4 = 1" "spec_capacity 2 4 = 1"
    by (simp_all add: spec_capacity_def ceiling_eq_iff)
  moreover have "loadOf two_assigned ''a'' = 2" by (simp add: two_assigned_eq loadOf_def)
  ultimately show ?thesis using assign_four_idle assign_one_assigned by simp
qed

text \<open>
  C3, amended. While the counters and the host count are below \<open>2^50\<close>: whenever
  \<^verbatim>\<open>GetHostCapacious\<close> returns a host and \<^verbatim>\<open>Inc\<close> is called on it, the counter of that
  host is afterwards at most the ceiling of \<open>1.25\<close> times the integer quotient of
  \<open>totalLoad + 1\<close> by the host count, with 1 in place of a quotient 0, taken from
  \<^verbatim>\<open>totalLoad\<close> (0 if negative) and the host count at that call; the entry of no other host
  changes.
\<close>

theorem assigned_load_within_capacity:
  assumes "exact_range c" and "assign n c key = Some (host, c2)"
  shows "loadOf c2 host \<le> capacity (max 0 (sint (totalLoad c))) (len_map (hosts c)) \<and>
         (\<forall>other. other \<noteq> host \<longrightarrow> hosts c2 other = hosts c other)"
  using assign_load [OF assms] by blast

theorem assigned_load_within_capacity_witness:
  "exact_range one_assigned \<and> assign 4 one_assigned ''a0'' = Some (''a'', two_assigned) \<and>
   capacity (max 0 (sint (totalLoad one_assigned))) (len_map (hosts one_assigned)) = 2 \<and>
   loadOf two_assigned ''a'' \<le> 2 \<and> hosts two_assigned ''b'' = hosts one_assigned ''b''"
proof -
  have cap: "capacity (max 0 (sint (totalLoad one_assigned))) (len_map (hosts one_assigned)) = 2"
    by (simp add: one_assigned_eq len_map_def capacity_int)
  from assigned_load_within_capacity [OF exact_range_one_assigned assign_one_assigned]
  have "loadOf two_assigned ''a'' \<le> 2" "hosts two_assigned ''b'' = hosts one_assigned ''b''"
    unfolding cap by simp_all
  with exact_range_one_assigned assign_one_assigned cap show ?thesis by blast
qed

section \<open>Termination of the walk\<close>

lemma searchKey_less: "ring c \<noteq> [] \<Longrightarrow> searchKey c key < length (ring c)"
  by (simp add: searchKey_def Let_def)

lemma walk_clamp:
  "i < length (ring c) \<Longrightarrow> walk n (clampTotalLoad c) i = walk n c i"
  by (cases n) (simp_all add: checkLoadCapacity_clamp)

text \<open>More iterations do not change what the walk has returned.\<close>

lemma walk_mono: "walk n c i = Some res \<Longrightarrow> n \<le> m \<Longrightarrow> walk m c i = Some res"
proof (induction n arbitrary: c i m)
  case 0
  then show ?case by simp
next
  case (Suc n)
  then obtain m' where m: "m = Suc m'" "n \<le> m'" by (cases m) simp_all
  show ?case
  proof (cases "i < length (ring c)")
    case False
    with Suc.prems(1) show ?thesis by (simp add: m)
  next
    case True
    define h where "h = lookup_string (virt2host c) (ring c ! i)"
    obtain out c' where chk: "checkLoadCapacity c h = (out, c')"
      by (cases "checkLoadCapacity c h")
    show ?thesis
    proof (cases out)
      case (Panic p)
      with Suc.prems(1) True chk show ?thesis by (simp add: m Let_def h_def [symmetric])
    next
      case (Return r)
      obtain loadChecked err where r: "r = (loadChecked, err)" by (cases r)
      show ?thesis
      proof (cases "err = None \<and> \<not> loadChecked")
        case False
        with Suc.prems(1) True chk Return r show ?thesis
          by (auto simp: m Let_def h_def [symmetric])
      next
        case True2: True
        with Suc.prems(1) True chk Return r
        have "walk n c' (if len_map (virt2host c') \<le> i + 1 then 0 else i + 1) = Some res"
          by (simp add: Let_def h_def [symmetric])
        from Suc.IH [OF this m(2)] True chk Return r True2 show ?thesis
          by (simp add: m Let_def h_def [symmetric])
      qed
    qed
  qed
qed

text \<open>The least loaded host is below the threshold.\<close>

lemma capacity_above_mean:
  assumes n: "0 < n" and m: "int n * m \<le> T" and T: "0 \<le> T"
  shows "m + 1 \<le> capacity T n"
proof -
  define q where "q = (T + 1) div int n"
  have "m * int n \<le> T + 1" using m by (simp add: mult.commute)
  then have "(m * int n) div int n \<le> q"
    unfolding q_def using n by (intro zdiv_mono1) simp_all
  then have mq: "m \<le> q" using n by simp
  have q0: "0 \<le> q" unfolding q_def using n T by (simp add: pos_imp_zdiv_nonneg_iff)
  show ?thesis
  proof (cases "q = 0")
    case True
    then have "capacity T n = 2" by (simp add: capacity_int q_def [symmetric])
    with mq True show ?thesis by simp
  next
    case False
    then have "capacity T n = - (- (5 * q) div 4)" by (simp add: capacity_int q_def [symmetric])
    moreover have "q + 1 \<le> - (- (5 * q) div 4)" using q0 False by presburger
    ultimately show ?thesis using mq by simp
  qed
qed

lemma least_loaded_host:
  assumes fin: "finite (dom (hosts c))" and ne: "dom (hosts c) \<noteq> {}"
    and sum: "sumLoads c \<le> max 0 (sint (totalLoad c))"
  shows "\<exists>name H. hosts c name = Some H \<and>
           sint (LoadBound H) + 1 \<le> capacity (max 0 (sint (totalLoad c))) (len_map (hosts c))"
proof -
  let ?A = "dom (hosts c)"
  let ?L = "loadOf c ` ?A"
  have "finite ?L" "?L \<noteq> {}" using fin ne by simp_all
  then have "Min ?L \<in> ?L" by (rule Min_in)
  then obtain name where name: "name \<in> ?A" "loadOf c name = Min ?L" by (metis imageE)
  then obtain H where H: "hosts c name = Some H" by auto
  have "\<And>h. h \<in> ?A \<Longrightarrow> Min ?L \<le> loadOf c h" using fin by simp
  then have "of_nat (card ?A) * Min ?L \<le> sum (loadOf c) ?A" by (rule sum_bounded_below)
  then have "int (len_map (hosts c)) * loadOf c name \<le> max 0 (sint (totalLoad c))"
    using sum by (simp add: sumLoads_def len_map_def name(2))
  moreover have "0 < len_map (hosts c)" using fin ne by (simp add: len_map_def card_gt_0_iff)
  ultimately have "loadOf c name + 1 \<le> capacity (max 0 (sint (totalLoad c))) (len_map (hosts c))"
    by (intro capacity_above_mean) simp_all
  with H show ?thesis by (auto simp: loadOf_def)
qed

text \<open>
  From index \<open>i\<close> the walk reaches an index \<open>j\<close> whose host has capacity, or returns earlier;
  the steps it needs are bounded by the distance from \<open>i\<close> to \<open>j\<close> around the ring.
\<close>

lemma walk_finds:
  assumes r: "exact_range c" and T: "0 \<le> sint (totalLoad c)"
    and len: "len_map (virt2host c) = length (ring c)"
    and owned: "\<forall>x \<in> set (ring c). \<exists>name. virt2host c x = Some name \<and> hosts c name \<noteq> None"
    and j: "j < length (ring c)" "virt2host c (ring c ! j) = Some hj" "hosts c hj = Some Hj"
      "sint (LoadBound Hj) + 1 \<le> capacity (max 0 (sint (totalLoad c))) (len_map (hosts c))"
  shows "i < length (ring c) \<Longrightarrow>
         (if i \<le> j then j - i else j + length (ring c) - i) < n \<Longrightarrow>
         \<exists>host. hosts c host \<noteq> None \<and> walk n c i = Some (Return (host, None), c)"
proof (induction n arbitrary: i)
  case 0
  then show ?case by simp
next
  case (Suc n)
  let ?cap = "capacity (max 0 (sint (totalLoad c))) (len_map (hosts c))"
  let ?next = "if len_map (virt2host c) \<le> i + 1 then 0 else i + 1"
  have cl: "clampTotalLoad c = c" using T by (rule clampTotalLoad_id)
  from Suc.prems(1) have "ring c ! i \<in> set (ring c)" by (rule nth_mem)
  with owned obtain h H where h: "virt2host c (ring c ! i) = Some h" "hosts c h = Some H"
    by (metis not_None_eq)
  note step = walk_step [OF r Suc.prems(1) h, of n, unfolded cl]
  show ?case
  proof (cases "sint (LoadBound H) + 1 \<le> ?cap")
    case True
    then have "walk (Suc n) c i = Some (Return (h, None), c)" by (simp only: step if_True)
    with h(2) show ?thesis by blast
  next
    case False
    then have w: "walk (Suc n) c i = walk n c ?next" by (simp only: step if_False)
    have ij: "i \<noteq> j" using False h j(2,3,4) by auto
    have nl: "?next < length (ring c)" using Suc.prems(1) by (auto simp: len)
    have "(if ?next \<le> j then j - ?next else j + length (ring c) - ?next) < n"
      using Suc.prems ij j(1) unfolding len by (cases "i \<le> j"; cases "length (ring c) \<le> i + 1") simp_all
    from Suc.IH [OF nl this] show ?thesis by (simp only: w)
  qed
qed

lemma walk_ready_returns:
  assumes "walk_ready c"
  shows "\<exists>host. hosts c host \<noteq> None \<and>
           (\<forall>n \<ge> length (ring c).
              GetHostCapacious n c key = Some (Return (host, None), clampTotalLoad c))"
proof -
  let ?c = "clampTotalLoad c"
  let ?i = "searchKey c (hashFunc c key)"
  from assms have ne: "ring c \<noteq> []" and len: "len_map (virt2host c) = length (ring c)"
    and owned: "\<forall>x \<in> set (ring c). \<exists>name. virt2host c x = Some name \<and> hosts c name \<noteq> None"
    and reach: "\<forall>name. hosts c name \<noteq> None \<longrightarrow> (\<exists>x \<in> set (ring c). virt2host c x = Some name)"
    and sum: "sumLoads c \<le> max 0 (sint (totalLoad c))" and r: "exact_range c"
    by (simp_all add: walk_ready_def)
  have fin: "finite (dom (hosts c))" using r by (simp add: exact_range_def)
  from ne obtain x where "x \<in> set (ring c)" by (cases "ring c") auto
  with owned have dne: "dom (hosts c) \<noteq> {}" by fastforce
  from least_loaded_host [OF fin dne sum] obtain hj Hj where hj: "hosts c hj = Some Hj"
    and cap: "sint (LoadBound Hj) + 1
                \<le> capacity (max 0 (sint (totalLoad c))) (len_map (hosts c))"
    by blast
  from reach hj obtain y where "y \<in> set (ring c)" "virt2host c y = Some hj" by fastforce
  then obtain j where j: "j < length (ring c)" "virt2host c (ring c ! j) = Some hj"
    by (metis in_set_conv_nth)
  have i: "?i < length (ring c)" using ne by (rule searchKey_less)
  have T: "0 \<le> sint (totalLoad ?c)" by simp
  have r': "exact_range ?c" using r by simp
  have "\<exists>host. hosts ?c host \<noteq> None \<and>
          walk (length (ring c)) ?c ?i = Some (Return (host, None), ?c)"
  proof (rule walk_finds [OF r' T, where j = j and hj = hj and Hj = Hj])
    show "len_map (virt2host ?c) = length (ring ?c)" using len by simp
    show "\<forall>x \<in> set (ring ?c). \<exists>name. virt2host ?c x = Some name \<and> hosts ?c name \<noteq> None"
      using owned by simp
    show "j < length (ring ?c)" using j(1) by simp
    show "virt2host ?c (ring ?c ! j) = Some hj" using j(2) by simp
    show "hosts ?c hj = Some Hj" using hj by simp
    show "sint (LoadBound Hj) + 1
            \<le> capacity (max 0 (sint (totalLoad ?c))) (len_map (hosts ?c))"
      using cap by simp
    show "?i < length (ring ?c)" using i by simp
    show "(if ?i \<le> j then j - ?i else j + length (ring ?c) - ?i) < length (ring c)"
      using i j(1) by auto
  qed
  then obtain host where host: "hosts c host \<noteq> None"
    and w: "walk (length (ring c)) ?c ?i = Some (Return (host, None), ?c)"
    by auto
  have nz: "len_map (virt2host c) \<noteq> 0" using ne len by simp
  have "GetHostCapacious n c key = Some (Return (host, None), ?c)"
    if n: "length (ring c) \<le> n" for n
  proof -
    from w n have "walk n ?c ?i = Some (Return (host, None), ?c)" by (rule walk_mono)
    then have "walk n c ?i = Some (Return (host, None), ?c)" using i by (simp add: walk_clamp)
    then show ?thesis using nz by (simp add: GetHostCapacious_def Let_def)
  qed
  with host show ?thesis by blast
qed

subsection \<open>Colliding virtual nodes\<close>

text \<open>
  In this state the walk tests host \<open>b\<close> at index 0, rejects it, wraps at the one key of
  \<^verbatim>\<open>virt2host\<close>, and is at index 0 again: no number of iterations makes it return.
\<close>

lemma walk_colliding: "walk n colliding 0 = None"
proof (induction n)
  case 0
  show ?case by simp
next
  case (Suc n)
  have "walk (Suc n) colliding 0 = walk n colliding 0"
    by (subst walk_step [OF exact_range_colliding,
          where h = "''b''" and H = "\<lparr>Name = ''b'', LoadBound = 2\<rparr>"])
      (simp_all add: colliding_eq len_map_def capacity_int clampTotalLoad_def)
  with Suc show ?case by simp
qed

lemma GetHostCapacious_colliding: "GetHostCapacious n colliding key = None"
proof -
  have "searchKey colliding (hashFunc colliding key) = 0"
    by (simp add: colliding_eq zero_hash_def searchKey_def Search_def Search_loop.simps)
  moreover have "len_map (virt2host colliding) \<noteq> 0"
    by (simp add: colliding_eq len_map_def)
  ultimately show ?thesis
    by (simp add: GetHostCapacious_def Let_def walk_colliding)
qed

text \<open>The state \<open>colliding\<close> is what two requests leave behind.\<close>

lemma colliding_by_requests: "assignAll 2 colliding_idle [''k'', ''k''] = Some colliding"
proof -
  have r0: "exact_range colliding_idle"
    by (simp add: colliding_idle_eq exact_range_def len_map_def)
  have r1: "exact_range colliding_once"
    by (simp add: colliding_once_eq exact_range_def len_map_def)
  have k0: "searchKey colliding_idle (hashFunc colliding_idle ''k'') = 0"
    by (simp add: colliding_idle_eq zero_hash_def searchKey_def Search_def Search_loop.simps)
  have k1: "searchKey colliding_once (hashFunc colliding_once ''k'') = 0"
    by (simp add: colliding_once_eq zero_hash_def searchKey_def Search_def Search_loop.simps)
  have w0: "walk (Suc (Suc 0)) colliding_idle 0 = Some (Return (''b'', None), colliding_idle)"
    by (subst walk_step [OF r0, where h = "''b''" and H = "\<lparr>Name = ''b'', LoadBound = 0\<rparr>"])
      (simp_all add: colliding_idle_eq len_map_def capacity_int clampTotalLoad_def)
  have w1: "walk (Suc (Suc 0)) colliding_once 0 = Some (Return (''b'', None), colliding_once)"
    by (subst walk_step [OF r1, where h = "''b''" and H = "\<lparr>Name = ''b'', LoadBound = 1\<rparr>"])
      (simp_all add: colliding_once_eq len_map_def capacity_int clampTotalLoad_def)
  have v: "len_map (virt2host colliding_idle) \<noteq> 0" "len_map (virt2host colliding_once) \<noteq> 0"
    by (simp_all add: colliding_idle_eq colliding_once_eq len_map_def)
  have g0: "GetHostCapacious 2 colliding_idle ''k'' = Some (Return (''b'', None), colliding_idle)"
    using v by (simp only: GetHostCapacious_def Let_def k0 numeral_2_eq_2 w0) simp
  have g1: "GetHostCapacious 2 colliding_once ''k'' = Some (Return (''b'', None), colliding_once)"
    using v by (simp only: GetHostCapacious_def Let_def k1 numeral_2_eq_2 w1) simp
  have i0: "Inc colliding_idle ''b'' = (Return (), colliding_once)"
    by (simp add: Inc_def colliding_idle_eq colliding_once_eq)
  have i1: "Inc colliding_once ''b'' = (Return (), colliding)"
    by (simp add: Inc_def colliding_once_eq colliding_eq)
  have a0: "assign 2 colliding_idle ''k'' = Some (''b'', colliding_once)"
    by (simp add: assign_def g0 i0)
  have a1: "assign 2 colliding_once ''k'' = Some (''b'', colliding)"
    by (simp add: assign_def g1 i1)
  show ?thesis by (simp add: a0 a1)
qed

text \<open>
  C6, as stated, fails. With a hash function under which the virtual nodes of hosts \<open>a\<close>
  and \<open>b\<close> collide, one replica each, and two requests in flight on \<open>b\<close>, both hosts are
  registered and the ring has two entries, but \<^verbatim>\<open>GetHostCapacious\<close> has not returned
  after 2 iterations of its loop, nor after 1000: nothing caps the steps.
\<close>

theorem GetHostCapacious_unbounded_walk_counterexample:
  "hosts colliding ''a'' \<noteq> None \<and> hosts colliding ''b'' \<noteq> None \<and>
   replicaNum colliding = 1 \<and> length (ring colliding) = 2 \<and>
   GetHostCapacious 2 colliding ''k'' = None \<and>
   GetHostCapacious 1000 colliding ''k'' = None"
  by (simp add: GetHostCapacious_colliding) (simp add: colliding_eq)

subsection \<open>States in which the walk returns\<close>

text \<open>
  C6, amended. In a state whose ring is not empty and has as many entries as the
  hash-to-host map has keys, in which every ring entry belongs to a registered host and
  every registered host has a ring entry, \<^verbatim>\<open>totalLoad\<close> (0 if negative) is at least the sum
  of the hosts' counters, and the counters and the host count are below \<open>2^50\<close>, the walk
  of \<^verbatim>\<open>GetHostCapacious\<close> returns a registered host, for every key, within as many
  iterations as the ring has entries. The code has no cap on the iterations.
\<close>

theorem GetHostCapacious_returns_within_ring:
  assumes "walk_ready c"
  shows "\<exists>host. hosts c host \<noteq> None \<and>
           (\<forall>n \<ge> length (ring c).
              GetHostCapacious n c key = Some (Return (host, None), clampTotalLoad c))"
  using assms by (rule walk_ready_returns)

theorem GetHostCapacious_returns_within_ring_witness:
  "walk_ready two_assigned \<and> length (ring two_assigned) = 4 \<and>
   (\<exists>host. hosts two_assigned host \<noteq> None \<and>
      GetHostCapacious 4 two_assigned ''a0'' = Some (Return (host, None), two_assigned))"
proof -
  have l: "length (ring two_assigned) = 4" by (simp add: two_assigned_eq)
  have c: "clampTotalLoad two_assigned = two_assigned"
    by (rule clampTotalLoad_id) (simp add: two_assigned_eq)
  from GetHostCapacious_returns_within_ring [OF walk_ready_two_assigned, of "''a0''"]
  have "\<exists>host. hosts two_assigned host \<noteq> None \<and>
          GetHostCapacious 4 two_assigned ''a0'' = Some (Return (host, None), two_assigned)"
    unfolding l c by blast
  with walk_ready_two_assigned l show ?thesis by blast
qed

end
